theory Spec2Isabelle
  imports Complex_Main "HOL-Library.Word" "HOL-Library.Multiset"
begin

section \<open>JavaScript values\<close>

text \<open>
  A JavaScript number that the program computes with is either NaN or a value, and a
  value is modelled by the rational it denotes. Where the double-precision arithmetic of
  the program is exact, the model uses the exact operation: a sample is a
  single-precision value, so its products with 32767 and 32768 are exact and the test
  \<open>0.5 + sample < 0\<close> decides as the exact sum does; the remainder \<open>%\<close> of two doubles
  is a double. Where it rounds (the quotient of a time by 60, the sum of a time and 2, the
  duration of a buffer and its product with a sample rate), the model rounds as IEEE 754
  does. The infinities only ever meet a clamp or a comparison, where they behave as a
  value beyond every bound.
\<close>

datatype js_num = NaN | Num rat

datatype js_error =
    RangeError
  | TypeError
  | SyntaxError string
  | Error string
  | Thrown string

text \<open>A throwing computation, and running the next step on its result.\<close>

definition then_do :: "js_error + 'a \<Rightarrow> ('a \<Rightarrow> js_error + 'b) \<Rightarrow> js_error + 'b" where
  "then_do r f = (case r of Inl e \<Rightarrow> Inl e | Inr x \<Rightarrow> f x)"

text \<open>
  Rounding to double precision: to the nearest double, and of two nearest ones to the one
  with an even significand. For a positive \<open>q\<close> with \<open>2^e \<le> q < 2^(e+1)\<close> the doubles
  around \<open>q\<close> are the multiples of \<open>2^(e-52)\<close>; below \<open>2^(-1022)\<close> they are the
  multiples of \<open>2^(-1074)\<close>. No quotient, product or sum of this program exceeds the
  largest double, beyond which rounding gives infinity.
\<close>

fun ilog2_nat :: "nat \<Rightarrow> nat" where
  "ilog2_nat n = (if n < 2 then 0 else Suc (ilog2_nat (n div 2)))"

declare ilog2_nat.simps [simp del]

definition exponent :: "rat \<Rightarrow> int" where
  "exponent q =
     (if 1 \<le> q then int (ilog2_nat (nat \<lfloor>q\<rfloor>))
      else - int (Suc (ilog2_nat (nat (\<lceil>1 / q\<rceil> - 1)))))"

definition ulp :: "rat \<Rightarrow> rat" where
  "ulp q = 2 powi (max (exponent q) (- 1022) - 52)"

definition round_half_even :: "rat \<Rightarrow> int" where
  "round_half_even y =
     (let f = \<lfloor>y\<rfloor>; r = y - of_int f
      in if r < 1 / 2 then f else if 1 / 2 < r then f + 1 else if even f then f else f + 1)"

definition round_double :: "rat \<Rightarrow> rat" where
  "round_double x =
     (if x = 0 then 0
      else sgn x * (of_int (round_half_even (\<bar>x\<bar> / ulp \<bar>x\<bar>)) * ulp \<bar>x\<bar>))"

text \<open>The operators \<open>/\<close>, \<open>*\<close> and \<open>+\<close> on two values.\<close>

definition js_divide :: "rat \<Rightarrow> rat \<Rightarrow> rat" where
  "js_divide a b = round_double (a / b)"

definition js_times :: "rat \<Rightarrow> rat \<Rightarrow> rat" where
  "js_times a b = round_double (a * b)"

definition js_plus :: "rat \<Rightarrow> rat \<Rightarrow> rat" where
  "js_plus a b = round_double (a + b)"

text \<open>\<open>Math.floor\<close>, truncation (the integer part, towards zero) and the remainder
  operator \<open>%\<close>, whose result has the sign of the dividend.\<close>

definition Math_floor :: "rat \<Rightarrow> int" where
  "Math_floor x = \<lfloor>x\<rfloor>"

definition js_trunc :: "rat \<Rightarrow> int" where
  "js_trunc x = (if x < 0 then - \<lfloor>- x\<rfloor> else \<lfloor>x\<rfloor>)"

definition js_rem :: "rat \<Rightarrow> rat \<Rightarrow> rat" where
  "js_rem a b = a - b * of_int (js_trunc (a / b))"

text \<open>
  \<open>Number.prototype.toString\<close> on a whole number. ECMAScript takes integers \<open>n\<close>,
  \<open>k\<close> and \<open>s\<close> with \<open>k \<ge> 1\<close> and \<open>10^(k-1) \<le> s < 10^k\<close> such that \<open>s * 10^(n-k)\<close>
  rounds to the number, with \<open>k\<close> as small as possible and, of several such \<open>s\<close>, the one
  that gives the closest value. It writes the digits of \<open>s\<close> followed by \<open>n - k\<close> zeros
  when \<open>n \<le> 21\<close>, and exponent notation beyond. A whole number below \<open>2^53\<close> is therefore
  written with all its digits.

  For a number \<open>v\<close> of \<open>n\<close> digits, the values of \<open>k\<close> digits nearest to \<open>v\<close> are
  \<open>v div 10^(n-k)\<close> and its successor, times \<open>10^(n-k)\<close>; the only value of more than
  \<open>n\<close> digits that can round to \<open>v\<close> is \<open>10^n\<close>.
\<close>

definition digit_char :: "nat \<Rightarrow> char" where
  "digit_char d = ''0123456789'' ! (d mod 10)"

fun decimal :: "nat \<Rightarrow> string" where
  "decimal n = (if n < 10 then [digit_char n] else decimal (n div 10) @ [digit_char (n mod 10)])"

declare decimal.simps [simp del]

definition digit_candidates :: "nat \<Rightarrow> nat \<Rightarrow> nat \<Rightarrow> nat list" where
  "digit_candidates v n k =
     filter (\<lambda>s. s < 10 ^ k \<and> round_double (of_nat (s * 10 ^ (n - k))) = of_nat v)
       [v div 10 ^ (n - k), v div 10 ^ (n - k) + 1]"

definition closest :: "nat \<Rightarrow> nat \<Rightarrow> nat list \<Rightarrow> nat" where
  "closest v p cs =
     (case cs of
        [] \<Rightarrow> 0
      | [s] \<Rightarrow> s
      | lo # hi # _ \<Rightarrow>
          (if v - lo * p < hi * p - v then lo
           else if hi * p - v < v - lo * p then hi
           else if even lo then lo else hi))"

definition shortest :: "nat \<Rightarrow> nat \<times> nat" where
  "shortest v =
     (let n = length (decimal v)
      in if round_double (of_nat (10 ^ n)) = of_nat v then (1, Suc n)
         else (case find (\<lambda>k. digit_candidates v n k \<noteq> []) [1..<Suc n] of
                 Some k \<Rightarrow> (closest v (10 ^ (n - k)) (digit_candidates v n k), n)
               | None \<Rightarrow> (v, n)))"

definition toString_nat :: "nat \<Rightarrow> string" where
  "toString_nat v =
     (if v < 2 ^ 53 then decimal v
      else
        (let (s, n) = shortest v; ds = decimal s
         in if n \<le> 21 then ds @ replicate (n - length ds) (CHR ''0'')
            else if length ds = 1 then ds @ ''e+'' @ decimal (n - 1)
            else hd ds # CHR ''.'' # tl ds @ ''e+'' @ decimal (n - 1)))"

definition Number_toString :: "int \<Rightarrow> string" where
  "Number_toString n =
     (if n < 0 then CHR ''-'' # toString_nat (nat (- n)) else toString_nat (nat n))"

definition padStart :: "nat \<Rightarrow> char \<Rightarrow> string \<Rightarrow> string" where
  "padStart n c s = replicate (n - length s) c @ s"

section \<open>formatTime\<close>

definition formatTime :: "rat \<Rightarrow> string" where
  "formatTime seconds =
     (let min = Math_floor (js_divide seconds 60);
          sec = Math_floor (js_rem seconds 60)
      in Number_toString min @ '':'' @ padStart 2 (CHR ''0'') (Number_toString sec))"

section \<open>The subtitle list\<close>

text \<open>
  A subtitle entry. The component also displays a speaker, an emotion, a translation, a
  thumbnail and a music analysis where an entry has them; they take no part in the order
  of the rows or in the time labels.
\<close>

record SubtitleNode =
  sub_id :: string
  timestamp :: rat
  endTime :: "rat option"
  sub_type :: string
  sub_text :: string

text \<open>
  \<open>Array.prototype.sort\<close> with a comparator sorts the array in place. For a consistent
  comparator ECMAScript fixes the outcome: the stable arrangement in which \<open>a\<close> stands
  before \<open>b\<close> whenever the comparator is negative on \<open>(a, b)\<close>. Inserting the
  elements from the right, each before the first element it does not exceed, computes
  that arrangement.
\<close>

fun insert_by :: "('a \<Rightarrow> 'a \<Rightarrow> rat) \<Rightarrow> 'a \<Rightarrow> 'a list \<Rightarrow> 'a list" where
  "insert_by cmp x [] = [x]"
| "insert_by cmp x (y # ys) = (if cmp x y > 0 then y # insert_by cmp x ys else x # y # ys)"

definition sort_by :: "('a \<Rightarrow> 'a \<Rightarrow> rat) \<Rightarrow> 'a list \<Rightarrow> 'a list" where
  "sort_by cmp xs = foldr (insert_by cmp) xs []"

text \<open>
  Arrays are objects: a variable holds a reference, and a store maps each reference (an
  index) to the array's present elements.
\<close>

type_synonym ref = nat
type_synonym store = "SubtitleNode list list"

definition spread_copy :: "ref \<Rightarrow> store \<Rightarrow> ref \<times> store" where
  "spread_copy r h = (length h, h @ [h ! r])"

definition Array_sort :: "(SubtitleNode \<Rightarrow> SubtitleNode \<Rightarrow> rat) \<Rightarrow> ref \<Rightarrow> store \<Rightarrow> ref \<times> store" where
  "Array_sort cmp r h = (r, h[r := sort_by cmp (h ! r)])"

definition truthy :: "rat option \<Rightarrow> bool" where
  "truthy v = (case v of None \<Rightarrow> False | Some x \<Rightarrow> x \<noteq> 0)"

record row =
  row_node :: SubtitleNode
  row_key :: string
  isActive :: bool
  isMusic :: bool
  isScene :: bool
  start_label :: string
  end_label :: "string option"

datatype rendered = NoAnalysisData | Rows "row list"

text \<open>
  The end label is what React shows for
  \<open>sub.endTime && <span>- {formatTime(sub.endTime)}</span>\<close>: nothing when the entry has
  no end time, the number 0 when its end time is 0, and the span otherwise.
\<close>

definition render_row :: "rat \<Rightarrow> SubtitleNode \<Rightarrow> row" where
  "render_row currentTime sub =
     \<lparr> row_node = sub,
       row_key = sub_id sub,
       isActive = (currentTime \<ge> timestamp sub \<and>
          (if truthy (endTime sub) then currentTime \<le> the (endTime sub)
           else currentTime < js_plus (timestamp sub) 2)),
       isMusic = (sub_type sub = ''music''),
       isScene = (sub_type sub = ''scene''),
       start_label = formatTime (timestamp sub),
       end_label =
         (case endTime sub of
            None \<Rightarrow> None
          | Some e \<Rightarrow> if e = 0 then Some ''0'' else Some (''- '' @ formatTime e)) \<rparr>"

definition SubtitleList :: "store \<Rightarrow> ref \<Rightarrow> rat \<Rightarrow> rendered \<times> store" where
  "SubtitleList h subtitles currentTime =
     (if length (h ! subtitles) = 0 then (NoAnalysisData, h)
      else
        (let (copy, h1) = spread_copy subtitles h;
             (sortedSubtitles, h2) = Array_sort (\<lambda>a b. timestamp a - timestamp b) copy h1
         in (Rows (map (render_row currentTime) (h2 ! sortedSubtitles)), h2)))"

section \<open>bufferToWav\<close>

text \<open>
  The arithmetic of the sample conversion. \<open>Math.min\<close>, \<open>Math.max\<close>, \<open>+\<close> and
  \<open>*\<close> give NaN when an argument is NaN, and a comparison with NaN is false.
\<close>

fun Math_min :: "js_num \<Rightarrow> js_num \<Rightarrow> js_num" where
  "Math_min (Num a) (Num b) = Num (min a b)"
| "Math_min _ _ = NaN"

fun Math_max :: "js_num \<Rightarrow> js_num \<Rightarrow> js_num" where
  "Math_max (Num a) (Num b) = Num (max a b)"
| "Math_max _ _ = NaN"

fun js_add :: "js_num \<Rightarrow> js_num \<Rightarrow> js_num" where
  "js_add (Num a) (Num b) = Num (a + b)"
| "js_add _ _ = NaN"

fun js_mul :: "js_num \<Rightarrow> js_num \<Rightarrow> js_num" where
  "js_mul (Num a) (Num b) = Num (a * b)"
| "js_mul _ _ = NaN"

fun js_less :: "js_num \<Rightarrow> js_num \<Rightarrow> bool" where
  "js_less (Num a) (Num b) = (a < b)"
| "js_less _ _ = False"

text \<open>\<open>x | 0\<close> is \<open>ToInt32 x\<close>: NaN becomes 0, a value is truncated and wrapped
  into the signed 32-bit range.\<close>

definition ToInt32 :: "js_num \<Rightarrow> int" where
  "ToInt32 x =
     (case x of
        NaN \<Rightarrow> 0
      | Num q \<Rightarrow> (let n = js_trunc q mod 2 ^ 32 in if n \<ge> 2 ^ 31 then n - 2 ^ 32 else n))"

text \<open>Reading a typed array beyond its end gives \<open>undefined\<close>, which is NaN to
  \<open>Math.min\<close>.\<close>

definition typed_array_get :: "js_num list \<Rightarrow> nat \<Rightarrow> js_num" where
  "typed_array_get arr i = (if i < length arr then arr ! i else NaN)"

text \<open>
  An \<open>AudioBuffer\<close>: its sample rate (a whole number of Hz), its length in frames, and
  the samples of each channel. The number of channels is the number of these arrays.
\<close>

record AudioBuffer =
  sampleRate :: nat
  buf_length :: nat
  channelData :: "js_num list list"

definition numberOfChannels :: "AudioBuffer \<Rightarrow> nat" where
  "numberOfChannels abuffer = length (channelData abuffer)"

text \<open>The duration in seconds is the quotient of the length by the sample rate, as a
  double.\<close>

definition duration :: "AudioBuffer \<Rightarrow> rat" where
  "duration abuffer = js_divide (of_nat (buf_length abuffer)) (of_nat (sampleRate abuffer))"

definition getChannelData :: "AudioBuffer \<Rightarrow> nat \<Rightarrow> js_num list" where
  "getChannelData abuffer i = channelData abuffer ! i"

text \<open>
  A \<open>DataView\<close> over an \<open>ArrayBuffer\<close>: the bytes are numbers below 256. A setter
  reduces its argument modulo the width, writes the bytes in little-endian order, and
  throws a RangeError when the bytes would not lie within the buffer.
\<close>

definition le_bytes :: "nat \<Rightarrow> nat \<Rightarrow> nat list" where
  "le_bytes n v = map (\<lambda>k. v div 256 ^ k mod 256) [0..<n]"

definition put_bytes :: "nat \<Rightarrow> nat list \<Rightarrow> nat list \<Rightarrow> js_error + nat list" where
  "put_bytes p bs v =
     (if p + length bs \<le> length v then Inr (take p v @ bs @ drop (p + length bs) v)
      else Inl RangeError)"

definition DataView_setUint32 :: "nat \<Rightarrow> nat \<Rightarrow> nat list \<Rightarrow> js_error + nat list" where
  "DataView_setUint32 p d v = put_bytes p (le_bytes 4 (d mod 2 ^ 32)) v"

definition DataView_setUint16 :: "nat \<Rightarrow> nat \<Rightarrow> nat list \<Rightarrow> js_error + nat list" where
  "DataView_setUint16 p d v = put_bytes p (le_bytes 2 (d mod 2 ^ 16)) v"

definition DataView_setInt16 :: "nat \<Rightarrow> int \<Rightarrow> nat list \<Rightarrow> js_error + nat list" where
  "DataView_setInt16 p d v = put_bytes p (le_bytes 2 (nat (d mod 2 ^ 16))) v"

text \<open>The variables that the function and its two local setters share.\<close>

record wav_writer =
  view :: "nat list"
  pos :: nat
  offset :: nat

definition setUint16 :: "nat \<Rightarrow> wav_writer \<Rightarrow> js_error + wav_writer" where
  "setUint16 d w =
     then_do (DataView_setUint16 (pos w) d (view w))
       (\<lambda>v. Inr (w\<lparr>view := v, pos := pos w + 2\<rparr>))"

definition setUint32 :: "nat \<Rightarrow> wav_writer \<Rightarrow> js_error + wav_writer" where
  "setUint32 d w =
     then_do (DataView_setUint32 (pos w) d (view w))
       (\<lambda>v. Inr (w\<lparr>view := v, pos := pos w + 4\<rparr>))"

definition write_header :: "AudioBuffer \<Rightarrow> nat \<Rightarrow> nat \<Rightarrow> wav_writer \<Rightarrow> js_error + wav_writer" where
  "write_header abuffer numOfChan len w0 =
     then_do (setUint32 0x46464952 w0) (\<lambda>w.
     then_do (setUint32 (len - 8) w) (\<lambda>w.
     then_do (setUint32 0x45564157 w) (\<lambda>w.
     then_do (setUint32 0x20746d66 w) (\<lambda>w.
     then_do (setUint32 16 w) (\<lambda>w.
     then_do (setUint16 1 w) (\<lambda>w.
     then_do (setUint16 numOfChan w) (\<lambda>w.
     then_do (setUint32 (sampleRate abuffer) w) (\<lambda>w.
     then_do (setUint32 (sampleRate abuffer * 2 * numOfChan) w) (\<lambda>w.
     then_do (setUint16 (numOfChan * 2) w) (\<lambda>w.
     then_do (setUint16 16 w) (\<lambda>w.
     then_do (setUint32 0x61746164 w) (\<lambda>w.
     setUint32 (len - pos w - 4) w))))))))))))"

text \<open>The conversion of one sample, as the loop body computes it.\<close>

definition pcm16 :: "js_num \<Rightarrow> int" where
  "pcm16 x =
     (let sample = Math_max (Num (- 1)) (Math_min (Num 1) x)
      in ToInt32 (if js_less (js_add (Num (1 / 2)) sample) (Num 0)
                  then js_mul sample (Num 32768) else js_mul sample (Num 32767)))"

text \<open>
  The two loops. The inner one writes the sample of each channel at frame \<open>pos\<close>; the
  outer one runs while \<open>pos\<close> is below the length of the buffer. Both work on the
  variables of the function, so \<open>pos\<close> enters the outer loop with the value that the
  header writes left in it.
\<close>

function write_channels :: "js_num list list \<Rightarrow> nat \<Rightarrow> nat \<Rightarrow> wav_writer \<Rightarrow> js_error + wav_writer" where
  "write_channels channels numOfChan i w =
     (if i < numOfChan then
        (let sample = pcm16 (typed_array_get (channels ! i) (pos w))
         in case DataView_setInt16 (44 + offset w) sample (view w) of
              Inl e \<Rightarrow> Inl e
            | Inr v \<Rightarrow>
                write_channels channels numOfChan (i + 1) (w\<lparr>view := v, offset := offset w + 2\<rparr>))
      else Inr w)"
  by pat_completeness auto
termination
  by (relation "measure (\<lambda>(channels, numOfChan, i, w). numOfChan - i)") auto

declare write_channels.simps [simp del]

lemma write_channels_pos: "write_channels channels numOfChan i w = Inr w' \<Longrightarrow> pos w' = pos w"
proof (induction channels numOfChan i w rule: write_channels.induct)
  case (1 channels numOfChan i w)
  show ?case
  proof (cases "i < numOfChan")
    case True
    with "1.prems" "1.IH" show ?thesis
      by (subst (asm) write_channels.simps) (auto simp: Let_def split: sum.splits)
  next
    case False
    with "1.prems" show ?thesis
      by (subst (asm) write_channels.simps) simp
  qed
qed

function write_frames :: "AudioBuffer \<Rightarrow> js_num list list \<Rightarrow> nat \<Rightarrow> wav_writer \<Rightarrow> js_error + wav_writer" where
  "write_frames abuffer channels numOfChan w =
     (if pos w < buf_length abuffer then
        (case write_channels channels numOfChan 0 w of
           Inl e \<Rightarrow> Inl e
         | Inr w' \<Rightarrow> write_frames abuffer channels numOfChan (w'\<lparr>pos := pos w' + 1\<rparr>))
      else Inr w)"
  by pat_completeness auto
termination
  by (relation "measure (\<lambda>(abuffer, channels, numOfChan, w). buf_length abuffer - pos w)")
     (auto dest: write_channels_pos)

declare write_frames.simps [simp del]

record Blob =
  blob_bytes :: "nat list"
  blob_type :: string

definition bufferToWav :: "AudioBuffer \<Rightarrow> js_error + Blob" where
  "bufferToWav abuffer =
     (let numOfChan = numberOfChannels abuffer;
          len = buf_length abuffer * numOfChan * 2 + 44;
          w0 = \<lparr>view = replicate len 0, pos = 0, offset = 0\<rparr>
      in then_do (write_header abuffer numOfChan len w0) (\<lambda>w1.
         let channels = map (getChannelData abuffer) [0..<numberOfChannels abuffer]
         in then_do (write_frames abuffer channels numOfChan w1) (\<lambda>w2.
            Inr \<lparr>blob_bytes = view w2, blob_type = ''audio/wav''\<rparr>)))"

section \<open>blobToBase64\<close>

text \<open>
  \<open>FileReader.readAsDataURL\<close> gives the data URL of a blob: its type and its bytes in
  base64 (RFC 4648, with padding).
\<close>

definition base64_alphabet :: string where
  "base64_alphabet = ''ABCDEFGHIJKLMNOPQRSTUVWXYZabcdefghijklmnopqrstuvwxyz0123456789+/''"

definition base64_char :: "nat \<Rightarrow> char" where
  "base64_char n = base64_alphabet ! (n mod 64)"

fun base64_encode :: "nat list \<Rightarrow> string" where
  "base64_encode [] = []"
| "base64_encode [a] =
     [base64_char (a div 4), base64_char (a mod 4 * 16), CHR ''='', CHR ''='']"
| "base64_encode [a, b] =
     [base64_char (a div 4), base64_char (a mod 4 * 16 + b div 16),
      base64_char (b mod 16 * 4), CHR ''='']"
| "base64_encode (a # b # c # rest) =
     [base64_char (a div 4), base64_char (a mod 4 * 16 + b div 16),
      base64_char (b mod 16 * 4 + c div 64), base64_char (c mod 64)] @ base64_encode rest"

definition readAsDataURL :: "Blob \<Rightarrow> string" where
  "readAsDataURL blob = ''data:'' @ blob_type blob @ '';base64,'' @ base64_encode (blob_bytes blob)"

text \<open>\<open>String.prototype.split\<close> with a separator of one character, and reading an
  array at an index, which gives \<open>undefined\<close> (here \<open>None\<close>) beyond its end.\<close>

fun split :: "char \<Rightarrow> string \<Rightarrow> string list" where
  "split sep [] = [[]]"
| "split sep (c # cs) =
     (if c = sep then [] # split sep cs
      else (case split sep cs of [] \<Rightarrow> [[c]] | p # ps \<Rightarrow> (c # p) # ps))"

definition array_get :: "'a list \<Rightarrow> nat \<Rightarrow> 'a option" where
  "array_get xs i = (if i < length xs then Some (xs ! i) else None)"

definition blobToBase64 :: "Blob \<Rightarrow> string option" where
  "blobToBase64 blob =
     (let base64data = readAsDataURL blob;
          content = array_get (split (CHR '','') base64data) 1
      in content)"

section \<open>extractAudioFromVideo\<close>

text \<open>
  The browser's part is a parameter: what reading the file gives, what
  \<open>decodeAudioData\<close> makes of the bytes, and what an \<open>OfflineAudioContext\<close> built with a
  number of channels, a length and a sample rate renders from a source buffer that plays
  from its start. Each of them can fail.
\<close>

record File =
  arrayBuffer :: "js_error + nat list"

record browser =
  decodeAudioData :: "nat list \<Rightarrow> js_error + AudioBuffer"
  startRendering :: "nat \<Rightarrow> rat \<Rightarrow> nat \<Rightarrow> AudioBuffer \<Rightarrow> js_error + AudioBuffer"

definition extractAudioFromVideo :: "browser \<Rightarrow> File \<Rightarrow> js_error + string option" where
  "extractAudioFromVideo env videoFile =
     then_do (arrayBuffer videoFile) (\<lambda>bytes.
     then_do (decodeAudioData env bytes) (\<lambda>audioBuffer.
     let targetSampleRate = 16000 in
     then_do (startRendering env 1 (js_times (duration audioBuffer) (of_nat targetSampleRate))
                targetSampleRate audioBuffer) (\<lambda>renderedBuffer.
     then_do (bufferToWav renderedBuffer) (\<lambda>wavBlob.
     Inr (blobToBase64 wavBlob)))))"

section \<open>The Gemini service\<close>

text \<open>
  A JavaScript string is a sequence of UTF-16 code units. \<open>trim\<close> removes the white
  space and line terminators of ECMAScript from both ends.
\<close>

type_synonym js_string = "16 word list"

definition is_white_space :: "16 word \<Rightarrow> bool" where
  "is_white_space c =
     (c \<in> set [0x9, 0xA, 0xB, 0xC, 0xD, 0x20, 0xA0, 0x1680, 0x2000, 0x2001, 0x2002, 0x2003,
               0x2004, 0x2005, 0x2006, 0x2007, 0x2008, 0x2009, 0x200A, 0x2028, 0x2029,
               0x202F, 0x205F, 0x3000, 0xFEFF])"

definition trim :: "js_string \<Rightarrow> js_string" where
  "trim s = rev (dropWhile is_white_space (rev (dropWhile is_white_space s)))"

datatype json =
    JNull
  | JBool bool
  | JNumber rat
  | JString js_string
  | JArray "json list"
  | JObject "(js_string \<times> json) list"

datatype language = Spanish | English

text \<open>
  A request to \<open>ai.models.generateContent\<close>: one form for each call site, with the inputs
  that the call site puts into it (the model name, the prompt and the configuration of a
  call site are constants). A response has a text, or none.
\<close>

datatype request =
    SceneRequest string
  | TranslateRequest js_string language
  | BatchRequest "js_string list" language
  | AudioRequest string

record GenerateContentResponse =
  response_text :: "js_string option"

text \<open>
  The service outside the program is a parameter: what \<open>generateContent\<close> answers to a
  request after the requests made before it, and what \<open>JSON.parse\<close> makes of a text.
  Either can throw. The effects of the program are the requests it makes and the lines it
  writes with \<open>console.error\<close>.
\<close>

record gemini =
  generateContent :: "request list \<Rightarrow> request \<Rightarrow> js_error + GenerateContentResponse"
  JSON_parse :: "js_string \<Rightarrow> js_error + json"

record world =
  api_calls :: "request list"
  console_errors :: "(string \<times> js_error) list"

definition call_generateContent ::
  "gemini \<Rightarrow> request \<Rightarrow> world \<Rightarrow> (js_error + GenerateContentResponse) \<times> world" where
  "call_generateContent env req w =
     (generateContent env (api_calls w) req, w\<lparr>api_calls := api_calls w @ [req]\<rparr>)"

text \<open>A text is truthy when it is there and not empty.\<close>

definition truthy_text :: "js_string option \<Rightarrow> bool" where
  "truthy_text t = (case t of None \<Rightarrow> False | Some s \<Rightarrow> s \<noteq> [])"

text \<open>The handler that the four functions share: \<open>console.error(label, error); throw
  error\<close>.\<close>

definition catch_log_rethrow :: "string \<Rightarrow> (js_error + 'a) \<times> world \<Rightarrow> (js_error + 'a) \<times> world" where
  "catch_log_rethrow label outcome =
     (case outcome of
        (Inl error, w) \<Rightarrow> (Inl error, w\<lparr>console_errors := console_errors w @ [(label, error)]\<rparr>)
      | (Inr v, w) \<Rightarrow> (Inr v, w))"

text \<open>The replacement of the pattern \<open>^data:image\/(png|jpeg|jpg);base64,\<close> by the empty
  string.\<close>

definition starts_with :: "string \<Rightarrow> string \<Rightarrow> bool" where
  "starts_with p s = (take (length p) s = p)"

definition clean_image :: "string \<Rightarrow> string" where
  "clean_image base64Image =
     (if starts_with ''data:image/png;base64,'' base64Image
        then drop (length ''data:image/png;base64,'') base64Image
      else if starts_with ''data:image/jpeg;base64,'' base64Image
        then drop (length ''data:image/jpeg;base64,'') base64Image
      else if starts_with ''data:image/jpg;base64,'' base64Image
        then drop (length ''data:image/jpg;base64,'') base64Image
      else base64Image)"

definition generateSceneDescription_try ::
  "gemini \<Rightarrow> string \<Rightarrow> world \<Rightarrow> (js_error + js_string) \<times> world" where
  "generateSceneDescription_try env cleanBase64 w =
     (case call_generateContent env (SceneRequest cleanBase64) w of
        (Inl error, w') \<Rightarrow> (Inl error, w')
      | (Inr response, w') \<Rightarrow>
          (if truthy_text (response_text response)
           then (Inr (trim (the (response_text response))), w')
           else (Inl (Error ''No text generated from Gemini.''), w')))"

definition generateSceneDescription ::
  "gemini \<Rightarrow> string \<Rightarrow> world \<Rightarrow> (js_error + js_string) \<times> world" where
  "generateSceneDescription env base64Image w =
     (let cleanBase64 = clean_image base64Image
      in catch_log_rethrow ''Gemini API Error:'' (generateSceneDescription_try env cleanBase64 w))"

definition translateText_try ::
  "gemini \<Rightarrow> js_string \<Rightarrow> language \<Rightarrow> world \<Rightarrow> (js_error + js_string) \<times> world" where
  "translateText_try env text targetLanguage w =
     (case call_generateContent env (TranslateRequest text targetLanguage) w of
        (Inl error, w') \<Rightarrow> (Inl error, w')
      | (Inr response, w') \<Rightarrow>
          (if truthy_text (response_text response)
           then (Inr (trim (the (response_text response))), w')
           else (Inl (Error ''Translation returned empty text.''), w')))"

definition translateText ::
  "gemini \<Rightarrow> js_string \<Rightarrow> language \<Rightarrow> world \<Rightarrow> (js_error + js_string) \<times> world" where
  "translateText env text targetLanguage w =
     (if text = [] \<or> trim text = [] then (Inr [], w)
      else catch_log_rethrow ''Gemini Translation Error:''
             (translateText_try env text targetLanguage w))"

definition translateBatch_try ::
  "gemini \<Rightarrow> js_string list \<Rightarrow> language \<Rightarrow> world \<Rightarrow> (js_error + json) \<times> world" where
  "translateBatch_try env texts targetLanguage w =
     (case call_generateContent env (BatchRequest texts targetLanguage) w of
        (Inl error, w') \<Rightarrow> (Inl error, w')
      | (Inr response, w') \<Rightarrow>
          (if truthy_text (response_text response)
           then (JSON_parse env (the (response_text response)), w')
           else (Inl (Error ''No JSON generated for translation batch.''), w')))"

definition translateBatch ::
  "gemini \<Rightarrow> js_string list \<Rightarrow> language \<Rightarrow> world \<Rightarrow> (js_error + json) \<times> world" where
  "translateBatch env texts targetLanguage w =
     (if length texts = 0 then (Inr (JArray []), w)
      else catch_log_rethrow ''Batch Translation Error:''
             (translateBatch_try env texts targetLanguage w))"

definition analyzeAudioDeeply_try ::
  "gemini \<Rightarrow> string \<Rightarrow> world \<Rightarrow> (js_error + json) \<times> world" where
  "analyzeAudioDeeply_try env base64Audio w =
     (case call_generateContent env (AudioRequest base64Audio) w of
        (Inl error, w') \<Rightarrow> (Inl error, w')
      | (Inr response, w') \<Rightarrow>
          (if truthy_text (response_text response)
           then (JSON_parse env (the (response_text response)), w')
           else (Inl (Error ''No JSON generated.''), w')))"

definition analyzeAudioDeeply ::
  "gemini \<Rightarrow> string \<Rightarrow> world \<Rightarrow> (js_error + json) \<times> world" where
  "analyzeAudioDeeply env base64Audio w =
     catch_log_rethrow ''Gemini Audio Analysis Error:'' (analyzeAudioDeeply_try env base64Audio w)"

section \<open>Properties of double rounding\<close>

lemma ilog2_nat_bounds: "0 < n \<Longrightarrow> 2 ^ ilog2_nat n \<le> n \<and> n < 2 ^ Suc (ilog2_nat n)"
proof (induction n rule: ilog2_nat.induct)
  case (1 n)
  show ?case
  proof (cases "n < 2")
    case True
    with 1(2) show ?thesis by (simp add: ilog2_nat.simps [of n])
  next
    case False
    then have "0 < n div 2" by simp
    with 1(1) [OF False]
    have ih: "2 ^ ilog2_nat (n div 2) \<le> n div 2" "n div 2 < 2 ^ Suc (ilog2_nat (n div 2))"
      by simp_all
    from False have s: "ilog2_nat n = Suc (ilog2_nat (n div 2))"
      by (simp add: ilog2_nat.simps [of n])
    from ih show ?thesis unfolding s by simp linarith
  qed
qed

text \<open>\<open>exponent q\<close> is the floor of the binary logarithm of a positive \<open>q\<close>.\<close>

lemma exponent_bounds:
  assumes "0 < q"
  shows "2 powi exponent q \<le> q" and "q < 2 powi (exponent q + 1)"
proof -
  have "2 powi exponent q \<le> q \<and> q < 2 powi (exponent q + 1)"
  proof (cases "1 \<le> q")
    case True
    define n where "n = nat \<lfloor>q\<rfloor>"
    from True have fl: "1 \<le> \<lfloor>q\<rfloor>" by simp
    then have n: "0 < n" unfolding n_def by simp
    from fl have nf: "rat_of_nat n = of_int \<lfloor>q\<rfloor>" unfolding n_def by simp
    have nq: "of_nat n \<le> q" "q < of_nat n + 1" unfolding nf by linarith+
    from ilog2_nat_bounds [OF n]
    have b: "2 ^ ilog2_nat n \<le> n" "n + 1 \<le> 2 ^ Suc (ilog2_nat n)" by simp_all
    from b(1) have "rat_of_nat (2 ^ ilog2_nat n) \<le> of_nat n" by (simp only: of_nat_le_iff)
    then have lo: "(2::rat) ^ ilog2_nat n \<le> of_nat n" by simp
    from b(2) have "rat_of_nat (n + 1) \<le> of_nat (2 ^ Suc (ilog2_nat n))"
      by (simp only: of_nat_le_iff)
    then have hi: "rat_of_nat n + 1 \<le> 2 ^ Suc (ilog2_nat n)" by simp
    have e: "exponent q = int (ilog2_nat n)" using True by (simp add: exponent_def n_def)
    have e1: "exponent q + 1 = int (Suc (ilog2_nat n))" unfolding e by simp
    have "2 powi exponent q \<le> q"
      unfolding e power_int_of_nat using lo nq(1) by (rule order_trans)
    moreover have "q < 2 powi (exponent q + 1)"
      unfolding e1 power_int_of_nat using nq(2) hi by (rule less_le_trans)
    ultimately show ?thesis ..
  next
    case False
    with assms have y: "1 < 1 / q" by simp
    define N where "N = \<lceil>1 / q\<rceil>"
    define m where "m = nat (N - 1)"
    from y have N2: "2 \<le> N" unfolding N_def by (simp add: le_ceiling_iff)
    then have m: "0 < m" unfolding m_def by simp
    from N2 have mN: "rat_of_nat m = of_int N - 1" unfolding m_def by simp
    have yN: "1 / q \<le> of_int N" "of_int N - 1 < 1 / q" unfolding N_def by linarith+
    from ilog2_nat_bounds [OF m]
    have b: "2 ^ ilog2_nat m \<le> m" "m + 1 \<le> 2 ^ Suc (ilog2_nat m)" by simp_all
    from b(1) have "rat_of_nat (2 ^ ilog2_nat m) \<le> of_nat m" by (simp only: of_nat_le_iff)
    then have lo: "(2::rat) ^ ilog2_nat m \<le> of_nat m" by simp
    from b(2) have "rat_of_nat (m + 1) \<le> of_nat (2 ^ Suc (ilog2_nat m))"
      by (simp only: of_nat_le_iff)
    then have hi: "rat_of_nat m + 1 \<le> 2 ^ Suc (ilog2_nat m)" by simp
    have e: "exponent q = - int (Suc (ilog2_nat m))"
      using False by (simp add: exponent_def m_def N_def)
    have e1: "exponent q + 1 = - int (ilog2_nat m)" unfolding e by simp
    have p: "(0::rat) < 2 ^ Suc (ilog2_nat m)" "(0::rat) < 2 ^ ilog2_nat m" by simp_all
    from yN(1) hi mN have "1 / q \<le> 2 ^ Suc (ilog2_nat m)" by linarith
    with assms p(1) have "1 / 2 ^ Suc (ilog2_nat m) \<le> q"
      by (simp add: field_simps)
    then have "2 powi exponent q \<le> q"
      unfolding e power_int_minus power_int_of_nat by (simp add: inverse_eq_divide)
    moreover from yN(2) lo mN have "2 ^ ilog2_nat m < 1 / q" by linarith
    with assms p(2) have "q < 1 / 2 ^ ilog2_nat m"
      by (simp add: field_simps)
    then have "q < 2 powi (exponent q + 1)"
      unfolding e1 power_int_minus power_int_of_nat by (simp add: inverse_eq_divide)
    ultimately show ?thesis ..
  qed
  then show "2 powi exponent q \<le> q" and "q < 2 powi (exponent q + 1)" by simp_all
qed

lemma exponent_eqI:
  assumes "2 powi e \<le> q" and "q < 2 powi (e + 1)"
  shows "exponent q = e"
proof -
  have "(0::rat) < 2 powi e" by simp
  with assms(1) have q: "0 < q" by linarith
  note b = exponent_bounds [OF q]
  have "\<not> exponent q + 1 \<le> e"
  proof
    assume "exponent q + 1 \<le> e"
    then have "(2::rat) powi (exponent q + 1) \<le> 2 powi e"
      by (intro power_int_increasing) simp_all
    with b(2) assms(1) show False by linarith
  qed
  moreover have "\<not> e + 1 \<le> exponent q"
  proof
    assume "e + 1 \<le> exponent q"
    then have "(2::rat) powi (e + 1) \<le> 2 powi exponent q"
      by (intro power_int_increasing) simp_all
    with b(1) assms(2) show False by linarith
  qed
  ultimately show ?thesis by linarith
qed

lemma round_half_even_ge: "of_int t \<le> y \<Longrightarrow> t \<le> round_half_even y"
proof -
  assume "of_int t \<le> y"
  then have "t \<le> \<lfloor>y\<rfloor>" by (simp add: le_floor_iff)
  then show ?thesis by (simp add: round_half_even_def Let_def)
qed

lemma round_half_even_less: "y < of_int t - 1 / 2 \<Longrightarrow> round_half_even y < t"
proof -
  assume a: "y < of_int t - 1 / 2"
  then have "y < of_int t" by linarith
  then have f: "\<lfloor>y\<rfloor> < t" by (simp add: floor_less_iff)
  show ?thesis
  proof (cases "y - of_int \<lfloor>y\<rfloor> < 1 / 2")
    case True
    with f show ?thesis by (simp add: round_half_even_def Let_def)
  next
    case False
    with a have "of_int \<lfloor>y\<rfloor> + 1 < rat_of_int t" by linarith
    then have "\<lfloor>y\<rfloor> + 1 < t" by (metis of_int_1 of_int_add of_int_less_iff)
    then show ?thesis by (simp add: round_half_even_def Let_def)
  qed
qed

lemma round_half_even_eqI:
  assumes "of_int t - 1 / 2 < y" and "y < of_int t + 1 / 2"
  shows "round_half_even y = t"
proof -
  from assms(2) have "y < of_int (t + 1) - 1 / 2" by simp
  then have "round_half_even y < t + 1" by (rule round_half_even_less)
  moreover have "t \<le> round_half_even y"
  proof (cases "of_int t \<le> y")
    case True
    then show ?thesis by (rule round_half_even_ge)
  next
    case False
    then have "y < of_int t" by simp
    then have "\<lfloor>y\<rfloor> < t" by (simp add: floor_less_iff)
    moreover from assms(1) have "rat_of_int (t - 1) \<le> y" by simp
    then have "t - 1 \<le> \<lfloor>y\<rfloor>" by (simp only: le_floor_iff)
    ultimately have fl: "\<lfloor>y\<rfloor> = t - 1" by linarith
    from assms(1) have "1 / 2 < y - of_int \<lfloor>y\<rfloor>" unfolding fl by simp
    then show ?thesis unfolding fl by (simp add: round_half_even_def Let_def fl)
  qed
  ultimately show ?thesis by linarith
qed

lemma round_half_even_of_int: "round_half_even (of_int t) = t"
  by (rule round_half_even_eqI) simp_all

lemma ulp_pos [simp]: "0 < ulp z"
  by (simp add: ulp_def)

lemma round_double_pos:
  "0 < x \<Longrightarrow> round_double x = of_int (round_half_even (x / ulp x)) * ulp x"
  by (simp add: round_double_def)

text \<open>Rounding a value whose binary exponent and nearest multiple are known.\<close>

lemma round_double_eqI:
  assumes "2 powi e \<le> x" and "x < 2 powi (e + 1)" and "- 1022 \<le> e"
    and "of_int t - 1 / 2 < x / 2 powi (e - 52)" and "x / 2 powi (e - 52) < of_int t + 1 / 2"
  shows "round_double x = of_int t * 2 powi (e - 52)"
proof -
  have "(0::rat) < 2 powi e" by simp
  with assms(1) have x: "0 < x" by linarith
  from assms(1,2) have e: "exponent x = e" by (rule exponent_eqI)
  from assms(3) have u: "ulp x = 2 powi (e - 52)" unfolding ulp_def e by (simp add: max_def)
  from assms(4,5) have "round_half_even (x / 2 powi (e - 52)) = t" by (rule round_half_even_eqI)
  then show ?thesis unfolding round_double_pos [OF x] u by simp
qed

lemma exponent_small:
  assumes "0 < z" and "z < 2 ^ 53"
  shows "exponent z \<le> 52"
proof (rule ccontr)
  assume "\<not> exponent z \<le> 52"
  then have "53 \<le> exponent z" by simp
  then have "(2::rat) powi 53 \<le> 2 powi exponent z" by (intro power_int_increasing) simp_all
  with exponent_bounds(1) [OF assms(1)] assms(2) show False by simp
qed

text \<open>Below \<open>2^53\<close> the doubles are spaced by one over a power of two, so every whole
  number is among them.\<close>

lemma ulp_small:
  assumes "0 < z" and "z < 2 ^ 53"
  obtains j where "ulp z = 1 / 2 ^ j"
proof -
  define E where "E = max (exponent z) (- 1022)"
  from exponent_small [OF assms] have "E \<le> 52" unfolding E_def by simp
  then have eq: "E - 52 = - int (nat (52 - E))" by simp
  have "ulp z = 2 powi (E - 52)" unfolding ulp_def E_def ..
  then have "ulp z = 1 / 2 ^ nat (52 - E)"
    unfolding eq power_int_minus power_int_of_nat by (simp only: inverse_eq_divide)
  then show ?thesis by (rule that)
qed

lemma ulp_lower:
  assumes "0 < z"
  shows "z / 2 ^ 53 < ulp z"
proof -
  define E where "E = max (exponent z) (- 1022)"
  have "(2::rat) powi (exponent z + 1) \<le> 2 powi (E + 1)"
    unfolding E_def by (intro power_int_increasing) simp_all
  with exponent_bounds(2) [OF assms] have z: "z < 2 powi (E + 1)" by linarith
  have eq: "E - 52 + 53 = E + 1" by simp
  have "(2::rat) powi (E - 52 + 53) = 2 powi (E - 52) * 2 powi 53"
    by (rule power_int_add) simp
  then have "(2::rat) powi (E + 1) = 2 powi (E - 52) * 2 ^ 53"
    unfolding eq power_int_numeral .
  then have "(2::rat) powi (E + 1) = ulp z * 2 ^ 53" unfolding ulp_def E_def .
  with z have "z < ulp z * 2 ^ 53" by (simp only:)
  then show ?thesis by (simp add: field_simps)
qed

lemma ulp_normal:
  assumes "0 < z" and "- 1022 \<le> exponent z"
  shows "ulp z \<le> z / 2 ^ 52"
proof -
  from assms(2) have "ulp z = 2 powi (exponent z - 52)" by (simp add: ulp_def max_def)
  also have "\<dots> = 2 powi exponent z / 2 powi 52" by (rule power_int_diff) simp
  finally have "ulp z = 2 powi exponent z / 2 ^ 52" by simp
  with exponent_bounds(1) [OF assms(1)] show ?thesis by (simp add: divide_right_mono)
qed

lemma ulp_subnormal:
  assumes "0 < z" and "exponent z < - 1022"
  shows "z < 1 / 2" and "ulp z \<le> 1"
proof -
  from assms(2) have "(2::rat) powi (exponent z + 1) \<le> 2 powi (- 1)"
    by (intro power_int_increasing) simp_all
  with exponent_bounds(2) [OF assms(1)] show "z < 1 / 2" by simp
  from assms(2) have "ulp z = 2 powi (- 1074)" by (simp add: ulp_def max_def)
  also have "\<dots> \<le> 2 powi 0" by (intro power_int_increasing) simp_all
  finally show "ulp z \<le> 1" by simp
qed

lemma exponent_ge:
  assumes "2 powi a \<le> z"
  shows "a \<le> exponent z"
proof (rule ccontr)
  assume "\<not> a \<le> exponent z"
  then have "exponent z + 1 \<le> a" by simp
  then have "(2::rat) powi (exponent z + 1) \<le> 2 powi a" by (intro power_int_increasing) simp_all
  moreover have "(0::rat) < 2 powi a" by simp
  with assms have "0 < z" by linarith
  then have "z < 2 powi (exponent z + 1)" by (rule exponent_bounds(2))
  ultimately show False using assms by linarith
qed

lemma exponent_less:
  assumes "0 < z" and "z < 2 powi b"
  shows "exponent z < b"
proof (rule ccontr)
  assume "\<not> exponent z < b"
  then have "b \<le> exponent z" by simp
  then have "(2::rat) powi b \<le> 2 powi exponent z" by (intro power_int_increasing) simp_all
  with exponent_bounds(1) [OF assms(1)] assms(2) show False by linarith
qed

text \<open>The spacing of the doubles around a value below a power of two.\<close>

lemma ulp_le:
  assumes "0 < z" and "z < 2 powi b" and "- 1021 \<le> b"
  shows "ulp z \<le> 2 powi (b - 53)"
proof -
  from exponent_less [OF assms(1,2)] assms(3)
  have "max (exponent z) (- 1022) - 52 \<le> b - 53" by simp
  then show ?thesis unfolding ulp_def by (intro power_int_increasing) simp_all
qed

text \<open>A double that is at least \<open>2^(52+a)\<close> is a multiple of \<open>2^a\<close>.\<close>

lemma double_multiple:
  assumes dbl: "round_double x = x" and big: "2 ^ (52 + a) \<le> x"
  obtains t :: int where "x = of_int (t * 2 ^ a)"
proof -
  have "(0::rat) < 2 ^ (52 + a)" by simp
  with big have pos: "0 < x" by linarith
  from big have "2 powi int (52 + a) \<le> x" by (simp only: power_int_of_nat)
  then have e: "int (52 + a) \<le> exponent x" by (rule exponent_ge)
  define m where "m = nat (exponent x - 52 - int a)"
  from e have "max (exponent x) (- 1022) - 52 = int (a + m)" unfolding m_def by simp
  then have u: "ulp x = 2 ^ (a + m)" unfolding ulp_def by (simp only: power_int_of_nat)
  define tx where "tx = round_half_even (x / ulp x)"
  from dbl round_double_pos [OF pos] have "x = of_int tx * 2 ^ (a + m)"
    unfolding tx_def u by simp
  then have "x = of_int (tx * 2 ^ m * 2 ^ a)" by (simp add: power_add mult.commute mult.left_commute)
  then show ?thesis by (rule that)
qed

text \<open>
  When the next whole number lies more than half the spacing of the doubles above the
  quotient, the rounded quotient has the floor of the quotient.
\<close>

lemma floor_round_double:
  assumes q: "0 < q" and q53: "q < 2 ^ 53"
    and half: "ulp q / 2 < of_int \<lfloor>q\<rfloor> + 1 - q"
  shows "\<lfloor>round_double q\<rfloor> = \<lfloor>q\<rfloor>"
proof -
  define f where "f = \<lfloor>q\<rfloor>"
  have fq: "of_int f \<le> q" unfolding f_def by linarith
  from ulp_small [OF q q53] obtain jq where uq: "ulp q = 1 / 2 ^ jq" .
  define r where "r = round_half_even (q / ulp q)"
  from round_double_pos [OF q] have rq: "round_double q = of_int r / 2 ^ jq"
    unfolding r_def uq by simp
  have quq: "q / ulp q = q * 2 ^ jq" unfolding uq by simp
  from fq have "rat_of_int (f * 2 ^ jq) \<le> q / ulp q"
    unfolding quq by (simp add: mult_right_mono)
  then have "f * 2 ^ jq \<le> r" unfolding r_def by (rule round_half_even_ge)
  then have "rat_of_int (f * 2 ^ jq) \<le> of_int r" by (simp only: of_int_le_iff)
  then have lower: "of_int f \<le> round_double q"
    unfolding rq by (simp add: field_simps)
  from half have "q * 2 ^ jq < (of_int f + 1) * 2 ^ jq - 1 / 2"
    unfolding uq f_def [symmetric] by (simp add: field_simps)
  then have "q / ulp q < of_int ((f + 1) * 2 ^ jq) - 1 / 2" unfolding quq by simp
  then have "r < (f + 1) * 2 ^ jq" unfolding r_def by (rule round_half_even_less)
  then have "rat_of_int r < of_int ((f + 1) * 2 ^ jq)" by (simp only: of_int_less_iff)
  then have upper: "round_double q < of_int f + 1"
    unfolding rq by (simp add: field_simps)
  from lower upper have "\<lfloor>round_double q\<rfloor> = f" by (simp add: floor_eq_iff)
  then show ?thesis unfolding f_def .
qed

text \<open>
  Below \<open>2^53\<close> the next whole number lies at least a sixtieth of the spacing at the
  dividend above the quotient, which is more than half the spacing at the quotient.
\<close>

lemma gap_small:
  assumes dbl: "round_double x = x" and pos: "0 < x" and small: "x < 2 ^ 53"
  shows "ulp (x / 60) / 2 < of_int \<lfloor>x / 60\<rfloor> + 1 - x / 60"
proof -
  define q where "q = x / 60"
  define f where "f = \<lfloor>q\<rfloor>"
  from pos have q: "0 < q" unfolding q_def by simp
  have fq: "q < of_int f + 1" unfolding f_def by linarith
  from ulp_small [OF pos small] obtain jx where ux: "ulp x = 1 / 2 ^ jx" .
  define tx where "tx = round_half_even (x / ulp x)"
  from dbl round_double_pos [OF pos] have x: "x = of_int tx / 2 ^ jx"
    unfolding tx_def ux by simp
  define c where "c = 60 * (f + 1) * 2 ^ jx - tx"
  have cx: "of_int c / 2 ^ jx = 60 * (of_int f + 1) - x"
    unfolding c_def x by (simp add: field_simps)
  from fq have "0 < 60 * (of_int f + 1) - x" unfolding q_def by simp
  then have "0 < rat_of_int c / 2 ^ jx" unfolding cx .
  then have "0 < rat_of_int c" by (simp add: zero_less_divide_iff)
  then have "1 \<le> c" by simp
  then have "1 \<le> rat_of_int c" by simp
  then have "1 / 2 ^ jx \<le> rat_of_int c / 2 ^ jx" by (simp add: divide_right_mono)
  then have "ulp x \<le> 60 * (of_int f + 1) - x" unfolding ux cx .
  then have gap: "ulp x / 60 \<le> of_int f + 1 - q" unfolding q_def by simp
  have "ulp q / 2 < of_int f + 1 - q"
  proof (cases "- 1022 \<le> exponent q")
    case True
    from ulp_normal [OF q True] have "ulp q / 2 \<le> x / 2 ^ 53 / 60" unfolding q_def by simp
    also from ulp_lower [OF pos] have "\<dots> < ulp x / 60" by simp
    finally show ?thesis using gap by linarith
  next
    case False
    then have "exponent q < - 1022" by simp
    from ulp_subnormal [OF q this] have s: "q < 1 / 2" "ulp q \<le> 1" .
    from q s(1) have "f = 0" unfolding f_def by (simp add: floor_eq_iff)
    with s show ?thesis by simp
  qed
  then show ?thesis unfolding f_def q_def .
qed

text \<open>
  From \<open>2^53\<close> to \<open>2^54\<close> the doubles are the even numbers, so the next multiple of 60 is
  at least 2 above the dividend, while the quotient is below \<open>2^49\<close>, where the doubles
  are a sixteenth apart. From \<open>2^54\<close> on the doubles are multiples of 4, so the next
  multiple of 60 is at least 4 above, while the quotient is below \<open>2^50\<close>, where the
  doubles are an eighth apart.
\<close>

lemma gap_even:
  assumes dbl: "round_double x = x" and lo: "2 ^ 53 \<le> x" and hi: "x < 2 ^ 54"
  shows "ulp (x / 60) / 2 < of_int \<lfloor>x / 60\<rfloor> + 1 - x / 60"
proof -
  define q where "q = x / 60"
  define f where "f = \<lfloor>q\<rfloor>"
  from lo have pos: "0 < x" by simp
  then have q: "0 < q" unfolding q_def by simp
  have fq: "q < of_int f + 1" unfolding f_def by linarith
  from lo have "2 ^ (52 + 1) \<le> x" by simp
  with dbl obtain t :: int where x: "x = of_int (t * 2 ^ 1)" by (rule double_multiple)
  define c where "c = 30 * (f + 1) - t"
  have cx: "of_int (2 * c) = 60 * (of_int f + 1) - x" unfolding c_def x by simp
  from fq have "0 < 60 * (of_int f + 1) - x" unfolding q_def by simp
  then have "0 < rat_of_int (2 * c)" unfolding cx .
  then have "0 < 2 * c" by (simp only: of_int_0_less_iff)
  then have "2 \<le> 2 * c" by simp
  then have "rat_of_int 2 \<le> of_int (2 * c)" by (simp only: of_int_le_iff)
  then have "2 \<le> 60 * (of_int f + 1) - x" unfolding cx by simp
  then have gap: "1 / 30 \<le> of_int f + 1 - q" unfolding q_def by simp
  from hi have "q < 2 powi 49" unfolding q_def by simp
  with q have "ulp q \<le> 2 powi (49 - 53)" by (rule ulp_le) simp
  then have "ulp q \<le> 1 / 16" by simp
  with gap have "ulp q / 2 < of_int f + 1 - q" by simp
  then show ?thesis unfolding f_def q_def .
qed

lemma gap_fourfold:
  assumes dbl: "round_double x = x" and lo: "2 ^ 54 \<le> x" and hi: "x < 60 * 2 ^ 50"
  shows "ulp (x / 60) / 2 < of_int \<lfloor>x / 60\<rfloor> + 1 - x / 60"
proof -
  define q where "q = x / 60"
  define f where "f = \<lfloor>q\<rfloor>"
  from lo have pos: "0 < x" by simp
  then have q: "0 < q" unfolding q_def by simp
  have fq: "q < of_int f + 1" unfolding f_def by linarith
  from lo have "2 ^ (52 + 2) \<le> x" by simp
  with dbl obtain t :: int where x: "x = of_int (t * 2 ^ 2)" by (rule double_multiple)
  define c where "c = 15 * (f + 1) - t"
  have cx: "of_int (4 * c) = 60 * (of_int f + 1) - x" unfolding c_def x by simp
  from fq have "0 < 60 * (of_int f + 1) - x" unfolding q_def by simp
  then have "0 < rat_of_int (4 * c)" unfolding cx .
  then have "0 < 4 * c" by (simp only: of_int_0_less_iff)
  then have "4 \<le> 4 * c" by simp
  then have "rat_of_int 4 \<le> of_int (4 * c)" by (simp only: of_int_le_iff)
  then have "4 \<le> 60 * (of_int f + 1) - x" unfolding cx by simp
  then have gap: "1 / 15 \<le> of_int f + 1 - q" unfolding q_def by simp
  from hi have "q < 2 powi 50" unfolding q_def by simp
  with q have "ulp q \<le> 2 powi (50 - 53)" by (rule ulp_le) simp
  then have "ulp q \<le> 1 / 8" by simp
  with gap have "ulp q / 2 < of_int f + 1 - q" by simp
  then show ?thesis unfolding f_def q_def .
qed

text \<open>
  The quotient of a double below \<open>60 * 2^50\<close> by 60 rounds to a value with the floor of
  the exact quotient.
\<close>

lemma floor_divide_60:
  assumes dbl: "round_double x = x" and pos: "0 < x" and small: "x < 60 * 2 ^ 50"
  shows "\<lfloor>round_double (x / 60)\<rfloor> = \<lfloor>x / 60\<rfloor>"
proof -
  from pos have q: "0 < x / 60" by simp
  from small have q53: "x / 60 < 2 ^ 53" by simp
  have "ulp (x / 60) / 2 < of_int \<lfloor>x / 60\<rfloor> + 1 - x / 60"
  proof (cases "x < 2 ^ 53")
    case True
    with dbl pos show ?thesis by (rule gap_small)
  next
    case False
    then have lo: "2 ^ 53 \<le> x" by simp
    show ?thesis
    proof (cases "x < 2 ^ 54")
      case True
      with dbl lo show ?thesis by (rule gap_even)
    next
      case False
      then have "2 ^ 54 \<le> x" by simp
      with dbl show ?thesis using small by (rule gap_fourfold)
    qed
  qed
  with q q53 show ?thesis by (rule floor_round_double)
qed

text \<open>Rounding a whole number, in whole numbers.\<close>

definition round_nat :: "nat \<Rightarrow> nat" where
  "round_nat c =
     (let u = 2 ^ (ilog2_nat c - 52); d = c div u; r = c mod u
      in (if 2 * r < u then d else if u < 2 * r then d + 1 else if even d then d else d + 1) * u)"

lemma exponent_of_nat:
  assumes "0 < c"
  shows "exponent (of_nat c) = int (ilog2_nat c)"
proof (rule exponent_eqI)
  from ilog2_nat_bounds [OF assms]
  have b: "2 ^ ilog2_nat c \<le> c" "c < 2 ^ Suc (ilog2_nat c)" by simp_all
  from b(1) have "rat_of_nat (2 ^ ilog2_nat c) \<le> of_nat c" by (simp only: of_nat_le_iff)
  then show "2 powi int (ilog2_nat c) \<le> rat_of_nat c" by simp
  from b(2) have "rat_of_nat c < of_nat (2 ^ Suc (ilog2_nat c))" by (simp only: of_nat_less_iff)
  moreover have "int (ilog2_nat c) + 1 = int (Suc (ilog2_nat c))" by simp
  ultimately show "rat_of_nat c < 2 powi (int (ilog2_nat c) + 1)"
    by (simp only: power_int_of_nat) simp
qed

lemma round_double_of_nat_small:
  assumes "0 < c" and "ilog2_nat c \<le> 52"
  shows "round_double (of_nat c) = of_nat (round_nat c)"
proof -
  define e where "e = ilog2_nat c"
  from assms have cpos: "(0::rat) < of_nat c" by simp
  have u: "ulp (of_nat c) = 2 powi (int e - 52)"
    unfolding ulp_def exponent_of_nat [OF assms(1)] e_def by simp
  from assms(2) have eq: "int e - 52 = - int (52 - e)" unfolding e_def by simp
  have u': "ulp (rat_of_nat c) = 1 / 2 ^ (52 - e)"
    unfolding u eq power_int_minus power_int_of_nat by (simp only: inverse_eq_divide)
  have "rat_of_nat c / ulp (of_nat c) = of_int (int (c * 2 ^ (52 - e)))" unfolding u' by simp
  then have "round_half_even (rat_of_nat c / ulp (of_nat c)) = int (c * 2 ^ (52 - e))"
    by (simp only: round_half_even_of_int)
  then have "round_double (of_nat c) = of_nat c"
    unfolding round_double_pos [OF cpos] u' by simp
  moreover from assms(2) have "round_nat c = c" by (simp add: round_nat_def)
  ultimately show ?thesis by simp
qed

lemma round_double_of_nat_large:
  assumes "0 < c" and "\<not> ilog2_nat c \<le> 52"
  shows "round_double (of_nat c) = of_nat (round_nat c)"
proof -
  define e where "e = ilog2_nat c"
  from assms have cpos: "(0::rat) < of_nat c" by simp
  have u: "ulp (of_nat c) = 2 powi (int e - 52)"
    unfolding ulp_def exponent_of_nat [OF assms(1)] e_def by simp
  define j where "j = e - 52"
  define un where "un = (2::nat) ^ j"
  define d where "d = c div un"
  define r where "r = c mod un"
  have un: "0 < un" unfolding un_def by simp
  from assms(2) have eq: "int e - 52 = int j" unfolding j_def e_def by simp
  have u': "ulp (rat_of_nat c) = of_nat un"
    unfolding u eq un_def power_int_of_nat by simp
  define y where "y = rat_of_nat c / of_nat un"
  have fl: "\<lfloor>y\<rfloor> = int d" unfolding y_def d_def by (simp add: floor_divide_of_nat_eq)
  have "d * un + r = c" unfolding d_def r_def by simp
  then have "rat_of_nat (d * un + r) = of_nat c" by (rule arg_cong)
  then have c: "rat_of_nat c = of_nat d * of_nat un + of_nat r"
    by (simp only: of_nat_add of_nat_mult)
  have fr: "y - of_int (int d) = of_nat r / of_nat un"
    unfolding y_def c using un by (simp add: field_simps)
  have cmp1: "(rat_of_nat r / of_nat un < 1 / 2) = (2 * r < un)"
  proof -
    have "(rat_of_nat r / of_nat un < 1 / 2) = (rat_of_nat (2 * r) < of_nat un)"
      using un by (simp add: field_simps)
    then show ?thesis by (simp only: of_nat_less_iff)
  qed
  have cmp2: "(1 / 2 < rat_of_nat r / of_nat un) = (un < 2 * r)"
  proof -
    have "(1 / 2 < rat_of_nat r / of_nat un) = (rat_of_nat un < of_nat (2 * r))"
      using un by (simp add: field_simps)
    then show ?thesis by (simp only: of_nat_less_iff)
  qed
  have "round_half_even y =
      int (if 2 * r < un then d else if un < 2 * r then d + 1 else if even d then d else d + 1)"
    unfolding round_half_even_def Let_def fl fr cmp1 cmp2 by simp
  then have "round_double (of_nat c) =
      of_nat ((if 2 * r < un then d else if un < 2 * r then d + 1
               else if even d then d else d + 1) * un)"
    unfolding round_double_pos [OF cpos] u' y_def [symmetric]
    by (simp only: of_nat_mult of_int_of_nat_eq)
  moreover have "round_nat c =
      (if 2 * r < un then d else if un < 2 * r then d + 1 else if even d then d else d + 1) * un"
    unfolding round_nat_def Let_def d_def r_def un_def j_def e_def ..
  ultimately show ?thesis by (simp only:)
qed

lemma round_double_of_nat:
  "0 < c \<Longrightarrow> round_double (of_nat c) = of_nat (round_nat c)"
  by (cases "ilog2_nat c \<le> 52")
     (simp_all add: round_double_of_nat_small round_double_of_nat_large)

lemma round_double_numeral: "round_double (numeral w) = of_nat (round_nat (numeral w))"
  using round_double_of_nat [of "numeral w"] by simp

section \<open>Properties of formatTime\<close>

lemma js_trunc_nonneg: "0 \<le> x \<Longrightarrow> js_trunc x = \<lfloor>x\<rfloor>"
  by (simp add: js_trunc_def)

lemma two_digits:
  assumes "k < 60"
  shows "padStart 2 (CHR ''0'') (decimal k) = [digit_char (k div 10), digit_char (k mod 10)]"
proof (cases "k < 10")
  case True
  then show ?thesis
    by (simp add: decimal.simps [of k] padStart_def digit_char_def)
next
  case False
  with assms have "k div 10 < 10" by simp
  with False show ?thesis
    by (simp add: decimal.simps [of k] decimal.simps [of "k div 10"] padStart_def)
qed

lemma rem_range:
  fixes s :: rat
  assumes "0 \<le> s"
  shows "0 \<le> s - 60 * of_int \<lfloor>s / 60\<rfloor>" and "s - 60 * of_int \<lfloor>s / 60\<rfloor> < 60"
proof -
  have "of_int \<lfloor>s / 60\<rfloor> \<le> s / 60" by (rule of_int_floor_le)
  then show "0 \<le> s - 60 * of_int \<lfloor>s / 60\<rfloor>" by simp
  have "s / 60 < of_int \<lfloor>s / 60\<rfloor> + 1" using floor_correct [of "s / 60"] by simp
  then show "s - 60 * of_int \<lfloor>s / 60\<rfloor> < 60" by simp
qed

lemma minutes_exact:
  assumes "round_double seconds = seconds" and "0 \<le> seconds" and "seconds < 60 * 2 ^ 50"
  shows "Math_floor (js_divide seconds 60) = \<lfloor>seconds / 60\<rfloor>"
proof (cases "seconds = 0")
  case True
  then show ?thesis by (simp add: Math_floor_def js_divide_def round_double_def)
next
  case False
  with assms(2) have "0 < seconds" by simp
  with assms(1) have "\<lfloor>round_double (seconds / 60)\<rfloor> = \<lfloor>seconds / 60\<rfloor>"
    using assms(3) by (rule floor_divide_60)
  then show ?thesis by (simp add: Math_floor_def js_divide_def)
qed

lemma Number_toString_small:
  assumes "0 \<le> n" and "n < 2 ^ 53"
  shows "Number_toString n = decimal (nat n)"
proof -
  from assms have "nat n < 2 ^ 53" by (simp add: nat_less_iff)
  with assms(1) show ?thesis by (simp add: Number_toString_def toString_nat_def)
qed

text \<open>The remainder of the reals, as the specification means it: what is left above the
  largest multiple of \<open>b\<close> that does not exceed \<open>a\<close>.\<close>

definition real_mod :: "rat \<Rightarrow> rat \<Rightarrow> rat" where
  "real_mod a b = a - b * of_int \<lfloor>a / b\<rfloor>"

text \<open>
  Claim C9, within its range. For every number of seconds that is a double (rounding
  leaves it as it is), not negative and below \<open>60 * 2^50\<close>, \<open>formatTime\<close> returns the
  decimal digits of \<open>floor (seconds / 60)\<close>, a colon and \<open>floor (seconds mod 60)\<close>
  padded with a zero to two digits: the part after the colon is exactly two digits, and
  the number they write is below 60.
\<close>

theorem formatTime_spec:
  assumes "round_double seconds = seconds" and "0 \<le> seconds" and "seconds < 60 * 2 ^ 50"
  shows "formatTime seconds =
           decimal (nat \<lfloor>seconds / 60\<rfloor>) @ '':'' @
             [digit_char (nat \<lfloor>real_mod seconds 60\<rfloor> div 10),
              digit_char (nat \<lfloor>real_mod seconds 60\<rfloor> mod 10)]
         \<and> 0 \<le> \<lfloor>real_mod seconds 60\<rfloor> \<and> \<lfloor>real_mod seconds 60\<rfloor> < 60"
proof -
  define r where "r = real_mod seconds 60"
  define k where "k = \<lfloor>r\<rfloor>"
  define m where "m = \<lfloor>seconds / 60\<rfloor>"
  from assms(2) have r: "0 \<le> r" "r < 60" unfolding r_def real_mod_def by (rule rem_range)+
  from r have k: "0 \<le> k" "k < 60" unfolding k_def by (simp_all add: floor_less_iff)
  from assms(2) have m0: "0 \<le> m" unfolding m_def by simp
  from assms(2,3) have "seconds / 60 < 2 ^ 53" by simp
  then have m53: "m < 2 ^ 53" unfolding m_def by (simp add: floor_less_iff)
  have minutes: "Math_floor (js_divide seconds 60) = m"
    unfolding m_def using assms by (rule minutes_exact)
  have rem: "Math_floor (js_rem seconds 60) = k"
    using assms(2) by (simp add: Math_floor_def js_rem_def js_trunc_nonneg k_def r_def real_mod_def)
  from m0 m53 have sm: "Number_toString m = decimal (nat m)" by (rule Number_toString_small)
  from k have sk: "Number_toString k = decimal (nat k)" by (intro Number_toString_small) simp_all
  from k have "nat k < 60" by simp
  then have "padStart 2 (CHR ''0'') (decimal (nat k)) =
      [digit_char (nat k div 10), digit_char (nat k mod 10)]"
    by (rule two_digits)
  then have "formatTime seconds =
             decimal (nat m) @ '':'' @ [digit_char (nat k div 10), digit_char (nat k mod 10)]"
    unfolding formatTime_def Let_def minutes rem sm sk by simp
  with k show ?thesis unfolding k_def r_def m_def by simp
qed

text \<open>Two minutes and five seconds.\<close>

theorem formatTime_spec_witness:
  "round_double 125 = 125 \<and> (0::rat) \<le> 125 \<and> (125::rat) < 60 * 2 ^ 50
   \<and> formatTime 125 = ''2:05''"
proof -
  have d: "round_double 125 = 125"
    by (simp add: round_double_numeral round_nat_def ilog2_nat.simps)
  have h: "(0::rat) \<le> 125" "(125::rat) < 60 * 2 ^ 50" by simp_all
  have a: "\<lfloor>(125::rat) / 60\<rfloor> = 2" by (simp add: floor_eq_iff)
  have b: "\<lfloor>real_mod 125 60\<rfloor> = 5" unfolding real_mod_def a by simp
  have c: "decimal (nat 2) = ''2''" by (simp add: decimal.simps [of 2] digit_char_def)
  from formatTime_spec [OF d h] have "formatTime 125 = ''2:05''"
    unfolding a b c by (simp add: digit_char_def)
  with d h show ?thesis by simp
qed

text \<open>
  Beyond that range the claim fails, at once and far out. The double \<open>60 * 2^50 + 56\<close>
  lies just above the range; its quotient by 60 is a fifteenth below \<open>2^50 + 1\<close>,
  where the doubles are a quarter apart, and rounds up to it. The time
  \<open>10^21\<close> is a double; its quotient by 60 rounds to 16666666666666665984, which
  \<open>toString\<close> writes with the seventeen digits that tell it from its neighbours,
  followed by zeros; the digits of the floor of the exact quotient are others.
\<close>

lemma find_upt:
  "find P [a..<b] = (if a < b then (if P a then Some a else find P [Suc a..<b]) else None)"
  by (simp add: upt_conv_Cons)

lemma minutes_1e21: "Math_floor (js_divide 1000000000000000000000 60) = 16666666666666665984"
proof -
  have "round_double (1000000000000000000000 / 60) = of_int 8138020833333333 * 2 powi (63 - 52)"
    by (rule round_double_eqI) simp_all
  then show ?thesis by (simp add: Math_floor_def js_divide_def)
qed

lemma seconds_1e21: "Math_floor (js_rem 1000000000000000000000 60) = 40"
proof -
  have "\<lfloor>(1000000000000000000000::rat) / 60\<rfloor> = 16666666666666666666"
    by (simp add: floor_eq_iff)
  then show ?thesis by (simp add: Math_floor_def js_rem_def js_trunc_def)
qed

lemma shortest_minutes_1e21: "shortest 16666666666666665984 = (16666666666666666, 20)"
proof -
  have "length (decimal 16666666666666665984) = 20"
    by (simp add: decimal.simps)
  then show ?thesis
    by (simp add: shortest_def digit_candidates_def closest_def round_double_numeral
        round_nat_def ilog2_nat.simps Let_def find_upt)
qed

lemma toString_minutes_1e21: "Number_toString 16666666666666665984 = ''16666666666666666000''"
proof -
  have "decimal 16666666666666666 = ''16666666666666666''"
    by (simp add: decimal.simps digit_char_def)
  then show ?thesis
    by (simp add: Number_toString_def toString_nat_def shortest_minutes_1e21 numeral_3_eq_3)
qed

lemma minutes_above: "Math_floor (js_divide 67553994410557496 60) = 1125899906842625"
proof -
  have "round_double (67553994410557496 / 60) = of_int 4503599627370500 * 2 powi (50 - 52)"
    by (rule round_double_eqI) simp_all
  then show ?thesis by (simp add: Math_floor_def js_divide_def)
qed

lemma floor_above: "\<lfloor>(67553994410557496::rat) / 60\<rfloor> = 1125899906842624"
  by (simp add: floor_eq_iff)

lemma formatTime_above: "formatTime 67553994410557496 = ''1125899906842625:56''"
proof -
  have r: "Math_floor (js_rem 67553994410557496 60) = 56"
    using floor_above by (simp add: Math_floor_def js_rem_def js_trunc_def)
  have m: "Number_toString 1125899906842625 = ''1125899906842625''"
    by (simp add: Number_toString_def toString_nat_def decimal.simps digit_char_def)
  have s: "Number_toString 56 = ''56''"
    by (simp add: Number_toString_def toString_nat_def decimal.simps digit_char_def)
  show ?thesis
    by (simp add: formatTime_def minutes_above r m s padStart_def)
qed

lemma claimed_above:
  "decimal (nat \<lfloor>(67553994410557496::rat) / 60\<rfloor>) @ '':'' @
     [digit_char (nat \<lfloor>real_mod 67553994410557496 60\<rfloor> div 10),
      digit_char (nat \<lfloor>real_mod 67553994410557496 60\<rfloor> mod 10)] = ''1125899906842624:56''"
proof -
  have m: "decimal 1125899906842624 = ''1125899906842624''"
    by (simp add: decimal.simps digit_char_def)
  show ?thesis unfolding real_mod_def floor_above by (simp add: m digit_char_def)
qed

theorem formatTime_large_counterexample:
  "round_double 67553994410557496 = 67553994410557496
   \<and> formatTime 67553994410557496 = ''1125899906842625:56''
   \<and> decimal (nat \<lfloor>(67553994410557496::rat) / 60\<rfloor>) @ '':'' @
        [digit_char (nat \<lfloor>real_mod 67553994410557496 60\<rfloor> div 10),
         digit_char (nat \<lfloor>real_mod 67553994410557496 60\<rfloor> mod 10)] = ''1125899906842624:56''
   \<and> round_double (10 ^ 21) = 10 ^ 21
   \<and> formatTime (10 ^ 21) = ''16666666666666666000:40''
   \<and> decimal (nat \<lfloor>(10::rat) ^ 21 / 60\<rfloor>) @ '':'' @
        [digit_char (nat \<lfloor>real_mod (10 ^ 21) 60\<rfloor> div 10),
         digit_char (nat \<lfloor>real_mod (10 ^ 21) 60\<rfloor> mod 10)] = ''16666666666666666666:40''"
proof -
  have d0: "round_double 67553994410557496 = 67553994410557496"
    by (simp add: round_double_numeral round_nat_def ilog2_nat.simps)
  have d: "round_double (10 ^ 21) = 10 ^ 21"
    by (simp add: round_double_numeral round_nat_def ilog2_nat.simps)
  have s: "Number_toString 40 = ''40''"
    by (simp add: Number_toString_def toString_nat_def decimal.simps digit_char_def)
  have f: "formatTime (10 ^ 21) = ''16666666666666666000:40''"
    by (simp add: formatTime_def minutes_1e21 seconds_1e21 toString_minutes_1e21 s padStart_def)
  have fl: "\<lfloor>(50000000000000000000::rat) / 3\<rfloor> = 16666666666666666666"
    by (simp add: floor_eq_iff)
  have m: "decimal 16666666666666666666 = ''16666666666666666666''"
    by (simp add: decimal.simps digit_char_def)
  have "decimal (nat \<lfloor>(10::rat) ^ 21 / 60\<rfloor>) @ '':'' @
        [digit_char (nat \<lfloor>real_mod (10 ^ 21) 60\<rfloor> div 10),
         digit_char (nat \<lfloor>real_mod (10 ^ 21) 60\<rfloor> mod 10)] = ''16666666666666666666:40''"
    by (simp add: real_mod_def fl m digit_char_def)
  with d0 formatTime_above claimed_above d f show ?thesis by (simp only: simp_thms)
qed

section \<open>Properties of bufferToWav\<close>

text \<open>The 44 bytes that the header writes produce for a sample rate, a number of
  channels and a file length: each field reduced to its width, in little-endian order.\<close>

definition header_bytes :: "nat \<Rightarrow> nat \<Rightarrow> nat \<Rightarrow> nat list" where
  "header_bytes rate numOfChan len =
     le_bytes 4 (0x46464952 mod 2 ^ 32) @ le_bytes 4 ((len - 8) mod 2 ^ 32) @
     le_bytes 4 (0x45564157 mod 2 ^ 32) @ le_bytes 4 (0x20746d66 mod 2 ^ 32) @
     le_bytes 4 (16 mod 2 ^ 32) @ le_bytes 2 (1 mod 2 ^ 16) @
     le_bytes 2 (numOfChan mod 2 ^ 16) @ le_bytes 4 (rate mod 2 ^ 32) @
     le_bytes 4 (rate * 2 * numOfChan mod 2 ^ 32) @ le_bytes 2 (numOfChan * 2 mod 2 ^ 16) @
     le_bytes 2 (16 mod 2 ^ 16) @ le_bytes 4 (0x61746164 mod 2 ^ 32) @
     le_bytes 4 ((len - 44) mod 2 ^ 32)"

lemma length_le_bytes [simp]: "length (le_bytes n v) = n"
  by (simp add: le_bytes_def)

lemma length_header_bytes [simp]: "length (header_bytes r c l) = 44"
  by (simp add: header_bytes_def)

lemma setUint32_step:
  assumes "pos w + 4 \<le> length (view w)"
  shows "setUint32 d w =
    Inr (w\<lparr>view := take (pos w) (view w) @ le_bytes 4 (d mod 2 ^ 32) @ drop (pos w + 4) (view w),
          pos := pos w + 4\<rparr>)"
  using assms by (simp add: setUint32_def DataView_setUint32_def put_bytes_def then_do_def)

lemma setUint16_step:
  assumes "pos w + 2 \<le> length (view w)"
  shows "setUint16 d w =
    Inr (w\<lparr>view := take (pos w) (view w) @ le_bytes 2 (d mod 2 ^ 16) @ drop (pos w + 2) (view w),
          pos := pos w + 2\<rparr>)"
  using assms by (simp add: setUint16_def DataView_setUint16_def put_bytes_def then_do_def)

lemma write_header_result:
  assumes "44 \<le> length v"
  shows "write_header abuffer numOfChan len \<lparr>view = v, pos = 0, offset = k\<rparr> =
    Inr \<lparr>view = header_bytes (sampleRate abuffer) numOfChan len @ drop 44 v, pos = 44, offset = k\<rparr>"
  using assms
  by (simp add: write_header_def setUint32_step setUint16_step then_do_def header_bytes_def)


lemma DataView_setInt16_step:
  assumes "p + 2 \<le> length v"
  shows "DataView_setInt16 p d v = Inr (take p v @ le_bytes 2 (nat (d mod 2 ^ 16)) @ drop (p + 2) v)"
  using assms by (simp add: DataView_setInt16_def put_bytes_def)

lemma write_channels_ok:
  assumes "44 + offset w + 2 * (numOfChan - i) \<le> length (view w)"
  shows "\<exists>w'. write_channels channels numOfChan i w = Inr w' \<and> pos w' = pos w \<and>
           offset w' = offset w + 2 * (numOfChan - i) \<and>
           length (view w') = length (view w) \<and> take 44 (view w') = take 44 (view w)"
  using assms
proof (induction channels numOfChan i w rule: write_channels.induct)
  case (1 channels numOfChan i w)
  show ?case
  proof (cases "i < numOfChan")
    case False
    then show ?thesis by (subst write_channels.simps) simp
  next
    case True
    define sample where "sample = pcm16 (typed_array_get (channels ! i) (pos w))"
    define v where "v = take (44 + offset w) (view w) @ le_bytes 2 (nat (sample mod 2 ^ 16)) @
       drop (44 + offset w + 2) (view w)"
    define w1 where "w1 = w\<lparr>view := v, offset := offset w + 2\<rparr>"
    from True "1.prems" have room: "44 + offset w + 2 \<le> length (view w)" by simp
    then have set: "DataView_setInt16 (44 + offset w) sample (view w) = Inr v"
      unfolding v_def by (rule DataView_setInt16_step)
    from room have len: "length v = length (view w)" by (simp add: v_def)
    from room have hd: "take 44 v = take 44 (view w)" by (simp add: v_def)
    from True "1.prems" len
    have "44 + offset w1 + 2 * (numOfChan - (i + 1)) \<le> length (view w1)"
      by (simp add: w1_def)
    with "1.IH" [OF True sample_def set] obtain w' where
      w': "write_channels channels numOfChan (i + 1) w1 = Inr w'" "pos w' = pos w1"
        "offset w' = offset w1 + 2 * (numOfChan - (i + 1))"
        "length (view w') = length (view w1)" "take 44 (view w') = take 44 (view w1)"
      unfolding w1_def by blast
    from True set w'(1) have "write_channels channels numOfChan i w = Inr w'"
      by (subst write_channels.simps) (simp add: sample_def [symmetric] w1_def)
    with w' True len hd show ?thesis by (simp add: w1_def)
  qed
qed

lemma write_frames_ok:
  assumes "44 + offset w + 2 * numOfChan * (buf_length abuffer - pos w) \<le> length (view w)"
  shows "\<exists>w'. write_frames abuffer channels numOfChan w = Inr w' \<and>
           length (view w') = length (view w) \<and> take 44 (view w') = take 44 (view w) \<and>
           offset w' = offset w + 2 * numOfChan * (buf_length abuffer - pos w)"
  using assms
proof (induction abuffer channels numOfChan w rule: write_frames.induct)
  case (1 abuffer channels numOfChan w)
  show ?case
  proof (cases "pos w < buf_length abuffer")
    case False
    then show ?thesis by (subst write_frames.simps) simp
  next
    case True
    then have split: "buf_length abuffer - pos w = Suc (buf_length abuffer - (pos w + 1))" by simp
    from "1.prems" have "44 + offset w + 2 * (numOfChan - 0) \<le> length (view w)"
      unfolding split by simp
    from write_channels_ok [OF this] obtain w1 where
      w1: "write_channels channels numOfChan 0 w = Inr w1" "pos w1 = pos w"
        "offset w1 = offset w + 2 * numOfChan" "length (view w1) = length (view w)"
        "take 44 (view w1) = take 44 (view w)"
      by auto
    define w2 where "w2 = w1\<lparr>pos := pos w1 + 1\<rparr>"
    from "1.prems" w1 have
      "44 + offset w2 + 2 * numOfChan * (buf_length abuffer - pos w2) \<le> length (view w2)"
      unfolding split by (simp add: w2_def)
    with "1.IH" [OF True w1(1)] obtain w' where
      w': "write_frames abuffer channels numOfChan w2 = Inr w'"
        "length (view w') = length (view w2)" "take 44 (view w') = take 44 (view w2)"
        "offset w' = offset w2 + 2 * numOfChan * (buf_length abuffer - pos w2)"
      unfolding w2_def by blast
    from True w1(1) w'(1) have "write_frames abuffer channels numOfChan w = Inr w'"
      by (subst write_frames.simps) (simp add: w2_def)
    moreover from w'(4) w1 have
      "offset w' = offset w + 2 * numOfChan * (buf_length abuffer - pos w)"
      unfolding split by (simp add: w2_def)
    ultimately show ?thesis using w' w1 by (simp add: w2_def)
  qed
qed

text \<open>The length of the file for a buffer.\<close>

definition wav_length :: "AudioBuffer \<Rightarrow> nat" where
  "wav_length abuffer = buf_length abuffer * numberOfChannels abuffer * 2 + 44"

lemma bufferToWav_ok:
  "\<exists>bytes. bufferToWav abuffer = Inr \<lparr>blob_bytes = bytes, blob_type = ''audio/wav''\<rparr> \<and>
     length bytes = wav_length abuffer \<and>
     take 44 bytes = header_bytes (sampleRate abuffer) (numberOfChannels abuffer) (wav_length abuffer)"
proof -
  define c where "c = numberOfChannels abuffer"
  define len where "len = buf_length abuffer * c * 2 + 44"
  define channels where "channels = map (getChannelData abuffer) [0..<c]"
  define w1 where "w1 = \<lparr>view = header_bytes (sampleRate abuffer) c len @ drop 44 (replicate len 0),
     pos = 44, offset = 0\<rparr>"
  have hdr: "write_header abuffer c len \<lparr>view = replicate len 0, pos = 0, offset = 0\<rparr> = Inr w1"
    unfolding w1_def by (rule write_header_result) (simp add: len_def)
  have len1: "length (view w1) = len" by (simp add: w1_def len_def)
  have "c * (buf_length abuffer - 44) \<le> c * buf_length abuffer" by simp
  then have "44 + offset w1 + 2 * c * (buf_length abuffer - pos w1) \<le> length (view w1)"
    unfolding len1 by (simp add: w1_def len_def mult.commute)
  from write_frames_ok [OF this] obtain w2 where
    w2: "write_frames abuffer channels c w1 = Inr w2" "length (view w2) = length (view w1)"
      "take 44 (view w2) = take 44 (view w1)"
    by blast
  have "bufferToWav abuffer = Inr \<lparr>blob_bytes = view w2, blob_type = ''audio/wav''\<rparr>"
    using hdr w2(1)
    by (simp add: bufferToWav_def Let_def then_do_def c_def [symmetric] len_def [symmetric]
        channels_def [symmetric])
  moreover have "length (view w2) = wav_length abuffer"
    using w2(2) len1 by (simp add: wav_length_def len_def c_def)
  moreover have "take 44 (view w2) =
      header_bytes (sampleRate abuffer) (numberOfChannels abuffer) (wav_length abuffer)"
    using w2(3) by (simp add: w1_def wav_length_def len_def c_def)
  ultimately show ?thesis by blast
qed

text \<open>
  What a reader of the file sees: the unsigned number in the \<open>n\<close> little-endian bytes at
  a position, the codes of an ASCII tag, and the bytes of the file that \<open>bufferToWav\<close>
  returns for a buffer.
\<close>

definition read_uint :: "nat \<Rightarrow> nat list \<Rightarrow> nat \<Rightarrow> nat" where
  "read_uint n bytes p = foldr (\<lambda>b acc. b + 256 * acc) (take n (drop p bytes)) 0"

definition ascii :: "string \<Rightarrow> nat list" where
  "ascii s = map of_char s"

definition wav_bytes :: "AudioBuffer \<Rightarrow> nat list" where
  "wav_bytes abuffer = (case bufferToWav abuffer of Inl e \<Rightarrow> [] | Inr blob \<Rightarrow> blob_bytes blob)"

lemma upt_0_4: "[0..<4] = [0, 1, 2, 3::nat]"
  by (simp add: upt_conv_Cons)

lemma upt_0_2: "[0..<2] = [0, 1::nat]"
  by (simp add: upt_conv_Cons)

lemma le_bytes_4: "le_bytes 4 x = [x mod 256, x div 256 mod 256, x div 65536 mod 256, x div 16777216 mod 256]"
  unfolding le_bytes_def upt_0_4 by simp

lemma le_bytes_2: "le_bytes 2 x = [x mod 256, x div 256 mod 256]"
  unfolding le_bytes_def upt_0_2 by simp

lemma value_le_bytes_2:
  assumes "x < 2 ^ 16"
  shows "foldr (\<lambda>b acc. b + 256 * acc) (le_bytes 2 x) 0 = x"
  using assms unfolding le_bytes_2 by simp

lemma value_le_bytes_4:
  fixes x :: nat
  assumes "x < 2 ^ 32"
  shows "foldr (\<lambda>b acc. b + 256 * acc) (le_bytes 4 x) 0 = x"
proof -
  define a where "a = x div 256"
  define b where "b = a div 256"
  define c where "c = b div 256"
  have x: "x mod 256 + 256 * a = x" unfolding a_def by (rule mod_mult_div_eq)
  have a: "a mod 256 + 256 * b = a" unfolding b_def by (rule mod_mult_div_eq)
  have b: "b mod 256 + 256 * c = b" unfolding c_def by (rule mod_mult_div_eq)
  have b': "x div 65536 = b" by (simp add: a_def b_def div_mult2_eq)
  have c': "x div 16777216 = c" by (simp add: a_def b_def c_def div_mult2_eq)
  from assms have "c < 256" unfolding c'[symmetric] by simp
  then have c: "c mod 256 = c" by simp
  have "x mod 256 + 256 * (a mod 256 + 256 * (b mod 256 + 256 * c)) = x"
    unfolding b a x ..
  then show ?thesis
    unfolding le_bytes_4 foldr.simps comp_def id_def b' c' c a_def [symmetric]
    by (simp only: mult_0_right add_0_right)
qed

lemma read_in_header:
  assumes "p + n \<le> 44"
  shows "read_uint n bytes p = read_uint n (take 44 bytes) p"
proof -
  from assms have "take n (drop p (take 44 bytes)) = take n (drop p bytes)"
    by (simp add: drop_take min_def)
  then show ?thesis by (simp add: read_uint_def)
qed

lemma take_in_header:
  assumes "p + n \<le> 44"
  shows "take n (drop p bytes) = take n (drop p (take 44 bytes))"
  using assms by (simp add: drop_take min_def)

lemma header_fields:
  "take 4 (header_bytes r c l) = le_bytes 4 (0x46464952 mod 2 ^ 32)"
  "take 4 (drop 4 (header_bytes r c l)) = le_bytes 4 ((l - 8) mod 2 ^ 32)"
  "take 4 (drop 8 (header_bytes r c l)) = le_bytes 4 (0x45564157 mod 2 ^ 32)"
  "take 4 (drop 12 (header_bytes r c l)) = le_bytes 4 (0x20746d66 mod 2 ^ 32)"
  "take 4 (drop 16 (header_bytes r c l)) = le_bytes 4 (16 mod 2 ^ 32)"
  "take 2 (drop 20 (header_bytes r c l)) = le_bytes 2 (1 mod 2 ^ 16)"
  "take 2 (drop 22 (header_bytes r c l)) = le_bytes 2 (c mod 2 ^ 16)"
  "take 4 (drop 24 (header_bytes r c l)) = le_bytes 4 (r mod 2 ^ 32)"
  "take 4 (drop 28 (header_bytes r c l)) = le_bytes 4 (r * 2 * c mod 2 ^ 32)"
  "take 2 (drop 32 (header_bytes r c l)) = le_bytes 2 (c * 2 mod 2 ^ 16)"
  "take 2 (drop 34 (header_bytes r c l)) = le_bytes 2 (16 mod 2 ^ 16)"
  "take 4 (drop 36 (header_bytes r c l)) = le_bytes 4 (0x61746164 mod 2 ^ 32)"
  "take 4 (drop 40 (header_bytes r c l)) = le_bytes 4 ((l - 44) mod 2 ^ 32)"
  by (simp_all add: header_bytes_def)

lemma tags:
  "le_bytes 4 (0x46464952 mod 2 ^ 32) = ascii ''RIFF''"
  "le_bytes 4 (0x45564157 mod 2 ^ 32) = ascii ''WAVE''"
  "le_bytes 4 (0x20746d66 mod 2 ^ 32) = ascii ''fmt ''"
  "le_bytes 4 (0x61746164 mod 2 ^ 32) = ascii ''data''"
  by (simp_all add: le_bytes_4 ascii_def)

lemma js_trunc_bounds:
  assumes "of_int lo \<le> q" and "q \<le> of_int hi" and "lo \<le> 0" and "0 \<le> hi"
  shows "lo \<le> js_trunc q \<and> js_trunc q \<le> hi"
proof (cases "q < 0")
  case True
  from assms(1) have "- q \<le> of_int (- lo)" by simp
  then have "\<lfloor>- q\<rfloor> \<le> \<lfloor>(of_int (- lo) :: rat)\<rfloor>" by (rule floor_mono)
  then have up: "\<lfloor>- q\<rfloor> \<le> - lo" by (simp only: floor_of_int)
  from True have nn: "0 \<le> \<lfloor>- q\<rfloor>" by simp
  from True have "js_trunc q = - \<lfloor>- q\<rfloor>" by (simp add: js_trunc_def)
  with up nn assms(4) show ?thesis by linarith
next
  case False
  then have low: "0 \<le> \<lfloor>q\<rfloor>" by simp
  from assms(2) have "\<lfloor>q\<rfloor> \<le> \<lfloor>(of_int hi :: rat)\<rfloor>" by (rule floor_mono)
  then have "\<lfloor>q\<rfloor> \<le> hi" by (simp only: floor_of_int)
  moreover from False have "js_trunc q = \<lfloor>q\<rfloor>" by (simp add: js_trunc_def)
  ultimately show ?thesis using low assms(3) by linarith
qed

lemma ToInt32_small:
  assumes "- (2 ^ 31) \<le> js_trunc q" and "js_trunc q < 2 ^ 31"
  shows "ToInt32 (Num q) = js_trunc q"
proof (cases "0 \<le> js_trunc q")
  case True
  with assms have "js_trunc q mod 2 ^ 32 = js_trunc q" by simp
  with assms show ?thesis by (simp add: ToInt32_def Let_def)
next
  case False
  have "js_trunc q mod 2 ^ 32 = (js_trunc q + 2 ^ 32) mod 2 ^ 32" by simp
  also from False assms have "\<dots> = js_trunc q + 2 ^ 32" by (intro mod_pos_pos_trivial) simp_all
  finally have "js_trunc q mod 2 ^ 32 = js_trunc q + 2 ^ 32" .
  with False assms show ?thesis by (simp add: ToInt32_def Let_def)
qed

text \<open>The clamp of a sample to the interval from -1 to 1.\<close>

definition clamp :: "rat \<Rightarrow> rat" where
  "clamp s = max (- 1) (min 1 s)"

lemma clamp_range: "- 1 \<le> clamp s" "clamp s \<le> 1"
  by (simp_all add: clamp_def)

lemma pcm16_Num_range:
  "- 32768 \<le> js_trunc (if clamp s < - (1 / 2) then clamp s * 32768 else clamp s * 32767) \<and>
   js_trunc (if clamp s < - (1 / 2) then clamp s * 32768 else clamp s * 32767) \<le> 32767"
proof -
  define c where "c = clamp s"
  have c: "- 1 \<le> c" "c \<le> 1" unfolding c_def by (rule clamp_range)+
  show ?thesis
  proof (cases "c < - (1 / 2)")
    case True
    from c True have "of_int (- 32768) \<le> c * 32768" "c * 32768 \<le> of_int 32767" by simp_all
    from js_trunc_bounds [OF this] True show ?thesis by (simp add: c_def [symmetric])
  next
    case False
    from c False have "of_int (- 32768) \<le> c * 32767" "c * 32767 \<le> of_int 32767" by simp_all
    from js_trunc_bounds [OF this] False show ?thesis by (simp add: c_def [symmetric])
  qed
qed

lemma pcm16_clamp:
  "pcm16 (Num s) =
     ToInt32 (if js_less (js_add (Num (1 / 2)) (Num (clamp s))) (Num 0)
              then js_mul (Num (clamp s)) (Num 32768) else js_mul (Num (clamp s)) (Num 32767))"
  by (simp only: pcm16_def Let_def Math_min.simps Math_max.simps clamp_def)

lemma pcm16_Num:
  "pcm16 (Num s) = js_trunc (if clamp s < - (1 / 2) then clamp s * 32768 else clamp s * 32767)"
proof -
  let ?q = "if clamp s < - (1 / 2) then clamp s * 32768 else clamp s * 32767"
  have cond: "(1 / 2 + clamp s < 0) = (clamp s < - (1 / 2))" by auto
  have "pcm16 (Num s) = ToInt32 (Num ?q)"
    unfolding pcm16_clamp js_add.simps js_less.simps js_mul.simps cond
    by (cases "clamp s < - (1 / 2)") simp_all
  also have "\<dots> = js_trunc ?q"
    using pcm16_Num_range [of s] by (intro ToInt32_small) simp_all
  finally show ?thesis .
qed

lemma pcm16_NaN: "pcm16 NaN = 0"
  by (simp add: pcm16_def ToInt32_def)

lemma pcm16_range: "- 32768 \<le> pcm16 x \<and> pcm16 x \<le> 32767"
proof (cases x)
  case NaN
  then show ?thesis by (simp add: pcm16_NaN)
next
  case (Num s)
  then show ?thesis using pcm16_Num_range [of s] by (simp only: pcm16_Num)
qed

lemma pcm16_quarter: "pcm16 (Num (- (1 / 4))) = - 8191"
proof -
  have c: "clamp (- (1 / 4)) = - (1 / 4)" by (simp add: clamp_def)
  have "\<lfloor>(32767 :: rat) / 4\<rfloor> = 8191" by (simp add: floor_eq_iff)
  then show ?thesis unfolding pcm16_Num c by (simp add: js_trunc_def)
qed

lemma pcm16_ends: "pcm16 (Num (- 1)) = - 32768" "pcm16 (Num 1) = 32767"
  by (simp_all add: pcm16_Num clamp_def js_trunc_def)

lemma wav_bytes_props:
  "bufferToWav abuffer = Inr \<lparr>blob_bytes = wav_bytes abuffer, blob_type = ''audio/wav''\<rparr>"
  "length (wav_bytes abuffer) = wav_length abuffer"
  "take 44 (wav_bytes abuffer) =
     header_bytes (sampleRate abuffer) (numberOfChannels abuffer) (wav_length abuffer)"
proof -
  from bufferToWav_ok [of abuffer] obtain bytes where
    b: "bufferToWav abuffer = Inr \<lparr>blob_bytes = bytes, blob_type = ''audio/wav''\<rparr>"
      "length bytes = wav_length abuffer"
      "take 44 bytes = header_bytes (sampleRate abuffer) (numberOfChannels abuffer) (wav_length abuffer)"
    by blast
  from b(1) have "wav_bytes abuffer = bytes" by (simp add: wav_bytes_def)
  with b show
    "bufferToWav abuffer = Inr \<lparr>blob_bytes = wav_bytes abuffer, blob_type = ''audio/wav''\<rparr>"
    "length (wav_bytes abuffer) = wav_length abuffer"
    "take 44 (wav_bytes abuffer) =
       header_bytes (sampleRate abuffer) (numberOfChannels abuffer) (wav_length abuffer)"
    by simp_all
qed

lemma read_uint_le_bytes_4: "take 4 (drop p bytes) = le_bytes 4 (x mod 2 ^ 32) \<Longrightarrow> read_uint 4 bytes p = x mod 2 ^ 32"
  by (simp add: read_uint_def value_le_bytes_4)

lemma read_uint_le_bytes_2: "take 2 (drop p bytes) = le_bytes 2 (x mod 2 ^ 16) \<Longrightarrow> read_uint 2 bytes p = x mod 2 ^ 16"
  by (simp add: read_uint_def value_le_bytes_2)

lemma wav_fields:
  "take 4 (wav_bytes a) = ascii ''RIFF''"
  "read_uint 4 (wav_bytes a) 4 = (wav_length a - 8) mod 2 ^ 32"
  "take 4 (drop 8 (wav_bytes a)) = ascii ''WAVE''"
  "take 4 (drop 12 (wav_bytes a)) = ascii ''fmt ''"
  "read_uint 4 (wav_bytes a) 16 = 16"
  "read_uint 2 (wav_bytes a) 20 = 1"
  "read_uint 2 (wav_bytes a) 22 = numberOfChannels a mod 2 ^ 16"
  "read_uint 4 (wav_bytes a) 24 = sampleRate a mod 2 ^ 32"
  "read_uint 4 (wav_bytes a) 28 = (sampleRate a * 2 * numberOfChannels a) mod 2 ^ 32"
  "read_uint 2 (wav_bytes a) 32 = (numberOfChannels a * 2) mod 2 ^ 16"
  "read_uint 2 (wav_bytes a) 34 = 16"
  "take 4 (drop 36 (wav_bytes a)) = ascii ''data''"
  "read_uint 4 (wav_bytes a) 40 = (wav_length a - 44) mod 2 ^ 32"
proof -
  note h = wav_bytes_props(3) [of a]
  have t: "\<And>p n. p + n \<le> 44 \<Longrightarrow> take n (drop p (wav_bytes a)) =
      take n (drop p (header_bytes (sampleRate a) (numberOfChannels a) (wav_length a)))"
    unfolding h [symmetric] by (rule take_in_header)
  have "take 4 (drop 0 (wav_bytes a)) = ascii ''RIFF''"
    by (subst t) (simp_all add: header_fields tags [symmetric])
  then show "take 4 (wav_bytes a) = ascii ''RIFF''" by simp
  show "read_uint 4 (wav_bytes a) 4 = (wav_length a - 8) mod 2 ^ 32"
    by (rule read_uint_le_bytes_4) (simp add: t header_fields)
  show "take 4 (drop 8 (wav_bytes a)) = ascii ''WAVE''"
    by (subst t) (simp_all add: header_fields tags [symmetric])
  show "take 4 (drop 12 (wav_bytes a)) = ascii ''fmt ''"
    by (subst t) (simp_all add: header_fields tags [symmetric])
  have "read_uint 4 (wav_bytes a) 16 = 16 mod 2 ^ 32"
    by (rule read_uint_le_bytes_4) (simp add: t header_fields)
  then show "read_uint 4 (wav_bytes a) 16 = 16" by simp
  have "read_uint 2 (wav_bytes a) 20 = 1 mod 2 ^ 16"
    by (rule read_uint_le_bytes_2) (simp add: t header_fields)
  then show "read_uint 2 (wav_bytes a) 20 = 1" by simp
  show "read_uint 2 (wav_bytes a) 22 = numberOfChannels a mod 2 ^ 16"
    by (rule read_uint_le_bytes_2) (simp add: t header_fields)
  show "read_uint 4 (wav_bytes a) 24 = sampleRate a mod 2 ^ 32"
    by (rule read_uint_le_bytes_4) (simp add: t header_fields)
  show "read_uint 4 (wav_bytes a) 28 = (sampleRate a * 2 * numberOfChannels a) mod 2 ^ 32"
    by (rule read_uint_le_bytes_4) (simp add: t header_fields)
  show "read_uint 2 (wav_bytes a) 32 = (numberOfChannels a * 2) mod 2 ^ 16"
    by (rule read_uint_le_bytes_2) (simp add: t header_fields)
  have "read_uint 2 (wav_bytes a) 34 = 16 mod 2 ^ 16"
    by (rule read_uint_le_bytes_2) (simp add: t header_fields)
  then show "read_uint 2 (wav_bytes a) 34 = 16" by simp
  show "take 4 (drop 36 (wav_bytes a)) = ascii ''data''"
    by (subst t) (simp_all add: header_fields tags [symmetric])
  show "read_uint 4 (wav_bytes a) 40 = (wav_length a - 44) mod 2 ^ 32"
    by (rule read_uint_le_bytes_4) (simp add: t header_fields)
qed

text \<open>
  Claim C2, amended. For every AudioBuffer whose header values fit the widths of their
  fields (file length minus 8 below \<open>2^32\<close>, byte rate below \<open>2^32\<close>, block align below
  \<open>2^16\<close>), \<open>bufferToWav\<close> succeeds and its file begins with a 44-byte RIFF/WAVE header:
  the RIFF chunk size is the file length minus 8, the fmt chunk length is 16, the byte rate
  is \<open>sampleRate * 2 * numberOfChannels\<close>, the block align is \<open>numberOfChannels * 2\<close>,
  and the data chunk size is \<open>frames * numberOfChannels * 2\<close>, the file length minus 44.
\<close>

theorem bufferToWav_header_consistent:
  assumes "wav_length abuffer - 8 < 2 ^ 32"
    and "sampleRate abuffer * 2 * numberOfChannels abuffer < 2 ^ 32"
    and "numberOfChannels abuffer * 2 < 2 ^ 16"
  shows "bufferToWav abuffer = Inr \<lparr>blob_bytes = wav_bytes abuffer, blob_type = ''audio/wav''\<rparr>
    \<and> length (wav_bytes abuffer) = 44 + buf_length abuffer * numberOfChannels abuffer * 2
    \<and> take 4 (wav_bytes abuffer) = ascii ''RIFF''
    \<and> read_uint 4 (wav_bytes abuffer) 4 = length (wav_bytes abuffer) - 8
    \<and> take 4 (drop 8 (wav_bytes abuffer)) = ascii ''WAVE''
    \<and> take 4 (drop 12 (wav_bytes abuffer)) = ascii ''fmt ''
    \<and> read_uint 4 (wav_bytes abuffer) 16 = 16
    \<and> read_uint 4 (wav_bytes abuffer) 28 = sampleRate abuffer * 2 * numberOfChannels abuffer
    \<and> read_uint 2 (wav_bytes abuffer) 32 = numberOfChannels abuffer * 2
    \<and> take 4 (drop 36 (wav_bytes abuffer)) = ascii ''data''
    \<and> read_uint 4 (wav_bytes abuffer) 40 = buf_length abuffer * numberOfChannels abuffer * 2
    \<and> read_uint 4 (wav_bytes abuffer) 40 = length (wav_bytes abuffer) - 44"
proof -
  have len: "length (wav_bytes abuffer) = 44 + buf_length abuffer * numberOfChannels abuffer * 2"
    by (simp add: wav_bytes_props(2) wav_length_def)
  from assms(1) have "wav_length abuffer - 44 < 2 ^ 32" by simp
  then have data: "read_uint 4 (wav_bytes abuffer) 40 = wav_length abuffer - 44"
    by (simp add: wav_fields(13))
  from assms(1) have riff: "read_uint 4 (wav_bytes abuffer) 4 = wav_length abuffer - 8"
    by (simp add: wav_fields(2))
  from assms(2) have rate:
    "read_uint 4 (wav_bytes abuffer) 28 = sampleRate abuffer * 2 * numberOfChannels abuffer"
    by (simp add: wav_fields(9))
  from assms(3) have align: "read_uint 2 (wav_bytes abuffer) 32 = numberOfChannels abuffer * 2"
    by (simp add: wav_fields(10))
  have sz: "wav_length abuffer - 44 = buf_length abuffer * numberOfChannels abuffer * 2"
    by (simp add: wav_length_def)
  show ?thesis
    unfolding data riff rate align
    by (simp add: wav_bytes_props wav_fields sz) (simp add: wav_length_def)
qed

text \<open>A mono buffer of two frames at 16000 Hz: a file of 48 bytes.\<close>

theorem bufferToWav_header_consistent_witness:
  "wav_length \<lparr>sampleRate = 16000, buf_length = 2, channelData = [[Num 0, Num 1]]\<rparr> - 8 < 2 ^ 32
   \<and> sampleRate \<lparr>sampleRate = 16000, buf_length = 2, channelData = [[Num 0, Num 1]]\<rparr> * 2 *
       numberOfChannels \<lparr>sampleRate = 16000, buf_length = 2, channelData = [[Num 0, Num 1]]\<rparr> < 2 ^ 32
   \<and> numberOfChannels \<lparr>sampleRate = 16000, buf_length = 2, channelData = [[Num 0, Num 1]]\<rparr> * 2 < 2 ^ 16
   \<and> length (wav_bytes \<lparr>sampleRate = 16000, buf_length = 2, channelData = [[Num 0, Num 1]]\<rparr>) = 48
   \<and> read_uint 4 (wav_bytes \<lparr>sampleRate = 16000, buf_length = 2, channelData = [[Num 0, Num 1]]\<rparr>) 4 = 40
   \<and> read_uint 4 (wav_bytes \<lparr>sampleRate = 16000, buf_length = 2, channelData = [[Num 0, Num 1]]\<rparr>) 28 = 32000
   \<and> read_uint 2 (wav_bytes \<lparr>sampleRate = 16000, buf_length = 2, channelData = [[Num 0, Num 1]]\<rparr>) 32 = 2
   \<and> read_uint 4 (wav_bytes \<lparr>sampleRate = 16000, buf_length = 2, channelData = [[Num 0, Num 1]]\<rparr>) 40 = 4"
  using bufferToWav_header_consistent
    [of "\<lparr>sampleRate = 16000, buf_length = 2, channelData = [[Num 0, Num 1]]\<rparr>"]
  by (simp add: wav_length_def numberOfChannels_def)

text \<open>
  Claim C2 as stated, for every AudioBuffer, fails where the file outgrows the 32-bit size
  fields: for a mono buffer of \<open>2^31\<close> frames the file has \<open>2^32 + 44\<close> bytes, and
  \<open>setUint32\<close> stores the RIFF chunk size \<open>2^32 + 36\<close> modulo \<open>2^32\<close>, as 36.
\<close>

theorem bufferToWav_riff_size_counterexample:
  "read_uint 4 (wav_bytes \<lparr>sampleRate = 16000, buf_length = 2147483648,
       channelData = [replicate 2147483648 (Num 0)]\<rparr>) 4 = 36
   \<and> length (wav_bytes \<lparr>sampleRate = 16000, buf_length = 2147483648,
       channelData = [replicate 2147483648 (Num 0)]\<rparr>) - 8 = 4294967332"
  by (simp add: wav_fields(2) wav_bytes_props(2) wav_length_def numberOfChannels_def)

lemma sample_loop_ok:
  "\<exists>w. write_frames abuffer (map (getChannelData abuffer) [0..<numberOfChannels abuffer])
          (numberOfChannels abuffer)
          \<lparr>view = header_bytes (sampleRate abuffer) (numberOfChannels abuffer) (wav_length abuffer) @
                  replicate (buf_length abuffer * numberOfChannels abuffer * 2) 0,
           pos = 44, offset = 0\<rparr> = Inr w
       \<and> view w = wav_bytes abuffer
       \<and> 44 + offset w \<le> length (view w)"
proof -
  define c where "c = numberOfChannels abuffer"
  define len where "len = buf_length abuffer * c * 2 + 44"
  define channels where "channels = map (getChannelData abuffer) [0..<c]"
  define w1 where "w1 = \<lparr>view = header_bytes (sampleRate abuffer) c len @ drop 44 (replicate len 0),
     pos = 44, offset = 0\<rparr>"
  have hdr: "write_header abuffer c len \<lparr>view = replicate len 0, pos = 0, offset = 0\<rparr> = Inr w1"
    unfolding w1_def by (rule write_header_result) (simp add: len_def)
  have len1: "length (view w1) = len" by (simp add: w1_def len_def)
  have "c * (buf_length abuffer - 44) \<le> c * buf_length abuffer" by simp
  then have room: "44 + offset w1 + 2 * c * (buf_length abuffer - pos w1) \<le> length (view w1)"
    unfolding len1 by (simp add: w1_def len_def mult.commute)
  from write_frames_ok [OF room] obtain w2 where
    w2: "write_frames abuffer channels c w1 = Inr w2" "length (view w2) = length (view w1)"
      "offset w2 = offset w1 + 2 * c * (buf_length abuffer - pos w1)"
    by blast
  have "bufferToWav abuffer = Inr \<lparr>blob_bytes = view w2, blob_type = ''audio/wav''\<rparr>"
    using hdr w2(1)
    by (simp add: bufferToWav_def Let_def then_do_def c_def [symmetric] len_def [symmetric]
        channels_def [symmetric])
  then have v: "view w2 = wav_bytes abuffer" by (simp add: wav_bytes_def)
  from room w2(2,3) have "44 + offset w2 \<le> length (view w2)" by simp
  moreover have "w1 = \<lparr>view = header_bytes (sampleRate abuffer) c (wav_length abuffer) @
                  replicate (buf_length abuffer * c * 2) 0, pos = 44, offset = 0\<rparr>"
    by (simp add: w1_def len_def wav_length_def c_def)
  ultimately show ?thesis
    using w2(1) v unfolding c_def channels_def by auto
qed

text \<open>
  Claim C4. \<open>bufferToWav\<close> writes only within the buffer it allocates. No write throws a
  RangeError; the buffer has \<open>44 + frames * numberOfChannels * 2\<close> bytes; the header
  writes determine the bytes 0 to 43, whatever they held, end at position 44 and leave
  every later byte as it was; the sample loop, started in the state that the header
  writes leave, ends without an error and with \<open>44 + offset\<close>, the end of its last write,
  within the buffer; and every sample value written lies between -32768 and 32767.
\<close>

theorem bufferToWav_writes_within_buffer:
  "bufferToWav abuffer = Inr \<lparr>blob_bytes = wav_bytes abuffer, blob_type = ''audio/wav''\<rparr>
   \<and> length (wav_bytes abuffer) = 44 + buf_length abuffer * numberOfChannels abuffer * 2
   \<and> (\<forall>v. length v = 44 + buf_length abuffer * numberOfChannels abuffer * 2 \<longrightarrow>
         write_header abuffer (numberOfChannels abuffer) (length v) \<lparr>view = v, pos = 0, offset = 0\<rparr> =
           Inr \<lparr>view = header_bytes (sampleRate abuffer) (numberOfChannels abuffer) (length v) @ drop 44 v,
                pos = 44, offset = 0\<rparr>)
   \<and> (\<exists>w. write_frames abuffer (map (getChannelData abuffer) [0..<numberOfChannels abuffer])
          (numberOfChannels abuffer)
          \<lparr>view = header_bytes (sampleRate abuffer) (numberOfChannels abuffer) (wav_length abuffer) @
                  replicate (buf_length abuffer * numberOfChannels abuffer * 2) 0,
           pos = 44, offset = 0\<rparr> = Inr w
       \<and> view w = wav_bytes abuffer
       \<and> 44 + offset w \<le> length (view w))
   \<and> (\<forall>x. - 32768 \<le> pcm16 x \<and> pcm16 x \<le> 32767)"
proof (intro conjI)
  show "bufferToWav abuffer = Inr \<lparr>blob_bytes = wav_bytes abuffer, blob_type = ''audio/wav''\<rparr>"
    by (rule wav_bytes_props)
  show "length (wav_bytes abuffer) = 44 + buf_length abuffer * numberOfChannels abuffer * 2"
    by (simp add: wav_bytes_props wav_length_def)
  show "\<forall>v. length v = 44 + buf_length abuffer * numberOfChannels abuffer * 2 \<longrightarrow>
         write_header abuffer (numberOfChannels abuffer) (length v) \<lparr>view = v, pos = 0, offset = 0\<rparr> =
           Inr \<lparr>view = header_bytes (sampleRate abuffer) (numberOfChannels abuffer) (length v) @ drop 44 v,
                pos = 44, offset = 0\<rparr>"
    by (simp add: write_header_result)
  show "\<exists>w. write_frames abuffer (map (getChannelData abuffer) [0..<numberOfChannels abuffer])
          (numberOfChannels abuffer)
          \<lparr>view = header_bytes (sampleRate abuffer) (numberOfChannels abuffer) (wav_length abuffer) @
                  replicate (buf_length abuffer * numberOfChannels abuffer * 2) 0,
           pos = 44, offset = 0\<rparr> = Inr w
       \<and> view w = wav_bytes abuffer
       \<and> 44 + offset w \<le> length (view w)"
    by (rule sample_loop_ok)
  show "\<forall>x. - 32768 \<le> pcm16 x \<and> pcm16 x \<le> 32767"
    by (simp add: pcm16_range)
qed

text \<open>The header written over a buffer of 48 bytes that all hold 7.\<close>

theorem bufferToWav_writes_within_buffer_witness:
  "length (replicate 48 (7::nat)) =
      44 + buf_length \<lparr>sampleRate = 16000, buf_length = 2, channelData = [[Num 0, Num 1]]\<rparr> *
        numberOfChannels \<lparr>sampleRate = 16000, buf_length = 2, channelData = [[Num 0, Num 1]]\<rparr> * 2
   \<and> write_header \<lparr>sampleRate = 16000, buf_length = 2, channelData = [[Num 0, Num 1]]\<rparr> 1 48
         \<lparr>view = replicate 48 7, pos = 0, offset = 0\<rparr> =
       Inr \<lparr>view = header_bytes 16000 1 48 @ [7, 7, 7, 7], pos = 44, offset = 0\<rparr>
   \<and> length (wav_bytes \<lparr>sampleRate = 16000, buf_length = 2, channelData = [[Num 0, Num 1]]\<rparr>) = 48"
proof -
  let ?a = "\<lparr>sampleRate = 16000, buf_length = 2, channelData = [[Num 0, Num 1]]\<rparr>"
  have n: "numberOfChannels ?a = 1" by (simp add: numberOfChannels_def)
  have l: "length (replicate 48 (7::nat)) = 44 + buf_length ?a * numberOfChannels ?a * 2"
    by (simp add: n)
  have d: "drop 44 (replicate 48 (7::nat)) = [7, 7, 7, 7]" by (simp add: numeral_eq_Suc)
  note all = bufferToWav_writes_within_buffer [of ?a]
  from all [THEN conjunct2, THEN conjunct1] all [THEN conjunct2, THEN conjunct2, THEN conjunct1] have
    "length (wav_bytes ?a) = 44 + buf_length ?a * numberOfChannels ?a * 2" and
    "\<forall>v. length v = 44 + buf_length ?a * numberOfChannels ?a * 2 \<longrightarrow>
         write_header ?a (numberOfChannels ?a) (length v) \<lparr>view = v, pos = 0, offset = 0\<rparr> =
           Inr \<lparr>view = header_bytes (sampleRate ?a) (numberOfChannels ?a) (length v) @ drop 44 v,
                pos = 44, offset = 0\<rparr>"
    by this+
  from this(1) this(2) [rule_format, OF l] l show ?thesis
    unfolding d n by simp
qed

lemma write_channels_done: "\<not> i < numOfChan \<Longrightarrow> write_channels channels numOfChan i w = Inr w"
  by (subst write_channels.simps) simp

lemma write_frames_done:
  "\<not> pos w < buf_length abuffer \<Longrightarrow> write_frames abuffer channels numOfChan w = Inr w"
  by (subst write_frames.simps) simp

text \<open>
  Claim C3 says that every sample of every channel is encoded, a negative one as the
  truncation of \<open>s * 32768\<close>. The code differs in both: the test \<open>0.5 + sample < 0\<close>
  scales by 32768 only below \<open>-0.5\<close>, and the loop counter \<open>pos\<close> starts from 44, where
  the header left it, so the first 44 frames are never read. For a mono buffer of 45 frames,
  44 of them 1 and the last \<open>-0.25\<close>, the data chunk holds the one sample -8191 (the bytes 1
  and 224) followed by 88 zero bytes; the claim has 44 samples 32767 and then -8192.
\<close>

theorem bufferToWav_skips_and_rescales:
  "pcm16 (Num (- (1 / 4))) = - 8191
   \<and> bufferToWav \<lparr>sampleRate = 16000, buf_length = 45,
         channelData = [replicate 44 (Num 1) @ [Num (- (1 / 4))]]\<rparr> =
       Inr \<lparr>blob_bytes = header_bytes 16000 1 134 @ [1, 224] @ replicate 88 0,
            blob_type = ''audio/wav''\<rparr>"
proof -
  define ch where "ch = replicate 44 (Num 1) @ [Num (- (1 / 4))]"
  define a where "a = \<lparr>sampleRate = 16000, buf_length = 45, channelData = [ch]\<rparr>"
  define hb where "hb = header_bytes 16000 1 134"
  define v1 where "v1 = hb @ replicate 90 0"
  define v2 where "v2 = hb @ [1, 224] @ replicate 88 0"
  have hdr: "write_header a 1 134 \<lparr>view = replicate 134 0, pos = 0, offset = 0\<rparr> =
      Inr \<lparr>view = v1, pos = 44, offset = 0\<rparr>"
    using write_header_result [of "replicate 134 0" a 1 134 0]
    by (simp add: v1_def hb_def a_def)
  have sample: "pcm16 (typed_array_get ch 44) = - 8191"
    by (simp add: typed_array_get_def nth_append pcm16_quarter ch_def)
  have "length hb = 44" by (simp add: hb_def)
  then have put: "DataView_setInt16 44 (- 8191) v1 = Inr v2"
    by (simp add: DataView_setInt16_step v1_def v2_def le_bytes_2)
  have inner: "write_channels [ch] (Suc 0) 0 \<lparr>view = v1, pos = 44, offset = 0\<rparr> =
      Inr \<lparr>view = v2, pos = 44, offset = 2\<rparr>"
    by (subst write_channels.simps) (simp add: sample put write_channels_done)
  have b: "buf_length a = 45" by (simp add: a_def)
  have frames: "write_frames a [ch] (Suc 0) \<lparr>view = v1, pos = 44, offset = 0\<rparr> =
      Inr \<lparr>view = v2, pos = 45, offset = 2\<rparr>"
    by (subst write_frames.simps) (simp add: inner b write_frames_done)
  have n: "numberOfChannels a = Suc 0" "buf_length a = 45" "map (getChannelData a) [0..<Suc 0] = [ch]"
    by (simp_all add: a_def numberOfChannels_def getChannelData_def)
  have "bufferToWav a = Inr \<lparr>blob_bytes = v2, blob_type = ''audio/wav''\<rparr>"
    unfolding bufferToWav_def Let_def n using hdr frames by (simp add: then_do_def)
  with pcm16_quarter show ?thesis
    unfolding a_def ch_def v2_def hb_def by simp
qed

text \<open>The file that \<open>bufferToWav\<close> builds consists of bytes.\<close>

definition is_bytes :: "nat list \<Rightarrow> bool" where
  "is_bytes bs = list_all (\<lambda>b. b < 256) bs"

lemma is_bytes_append [simp]: "is_bytes (xs @ ys) = (is_bytes xs \<and> is_bytes ys)"
  by (simp add: is_bytes_def)

lemma is_bytes_le_bytes [simp]: "is_bytes (le_bytes n v)"
  by (simp add: is_bytes_def le_bytes_def list_all_iff)



lemma is_bytes_replicate [simp]: "is_bytes (replicate n 0)"
  by (simp add: is_bytes_def list_all_iff)

lemma is_bytes_header [simp]: "is_bytes (header_bytes r c l)"
  by (simp add: header_bytes_def)





section \<open>Properties of the subtitle list\<close>

lemma mset_insert_by: "mset (insert_by cmp x ys) = add_mset x (mset ys)"
  by (induction ys) simp_all

lemma set_insert_by: "set (insert_by cmp x ys) = insert x (set ys)"
  by (induction ys) auto

lemma sorted_insert_by:
  assumes "sorted (map timestamp ys)"
  shows "sorted (map timestamp (insert_by (\<lambda>a b. timestamp a - timestamp b) x ys))"
  using assms
proof (induction ys)
  case Nil
  then show ?case by simp
next
  case (Cons y ys)
  show ?case
  proof (cases "timestamp x - timestamp y > 0")
    case True
    with Cons show ?thesis by (auto simp: set_insert_by)
  next
    case False
    with Cons.prems show ?thesis by auto
  qed
qed

lemma mset_sort_by: "mset (sort_by cmp xs) = mset xs"
  by (induction xs) (simp_all add: sort_by_def mset_insert_by)

lemma sorted_sort_by:
  "sorted (map timestamp (sort_by (\<lambda>a b. timestamp a - timestamp b) xs))"
  by (induction xs) (simp_all add: sort_by_def sorted_insert_by)

lemma SubtitleList_nonempty:
  assumes "h ! subtitles \<noteq> []"
  shows "SubtitleList h subtitles currentTime =
    (Rows (map (render_row currentTime) (sort_by (\<lambda>a b. timestamp a - timestamp b) (h ! subtitles))),
     h @ [sort_by (\<lambda>a b. timestamp a - timestamp b) (h ! subtitles)])"
  using assms by (simp add: SubtitleList_def spread_copy_def Array_sort_def)

lemma SubtitleList_empty:
  assumes "h ! subtitles = []"
  shows "SubtitleList h subtitles currentTime = (NoAnalysisData, h)"
  using assms by (simp add: SubtitleList_def)

lemma row_node_render_row: "map row_node (map (render_row t) xs) = xs"
  by (induction xs) (simp_all add: render_row_def)

text \<open>
  Claim C7. For every non-empty subtitles list, \<open>SubtitleList\<close> renders rows: one row
  for each entry of the list, in nondecreasing order of the timestamps, whatever the order
  of the list.
\<close>

theorem SubtitleList_rows_sorted:
  assumes "h ! subtitles \<noteq> []"
  shows "\<exists>rows. fst (SubtitleList h subtitles currentTime) = Rows rows \<and>
           sorted (map timestamp (map row_node rows)) \<and>
           mset (map row_node rows) = mset (h ! subtitles)"
proof -
  let ?sorted = "sort_by (\<lambda>a b. timestamp a - timestamp b) (h ! subtitles)"
  let ?rows = "map (render_row currentTime) ?sorted"
  from assms have "fst (SubtitleList h subtitles currentTime) = Rows ?rows"
    by (simp add: SubtitleList_nonempty)
  moreover have "map row_node ?rows = ?sorted" by (rule row_node_render_row)
  then have "sorted (map timestamp (map row_node ?rows))" "mset (map row_node ?rows) = mset (h ! subtitles)"
    by (simp_all only: sorted_sort_by mset_sort_by)
  ultimately show ?thesis by blast
qed

text \<open>
  Claim C10. \<open>SubtitleList\<close> never changes the array it receives: after rendering, the
  store holds the same elements in the same order under the reference \<open>subtitles\<close>, and
  under every other reference that existed; the sorted array is a new one.
\<close>

theorem SubtitleList_keeps_input:
  assumes "subtitles < length h"
  shows "snd (SubtitleList h subtitles currentTime) ! subtitles = h ! subtitles \<and>
         take (length h) (snd (SubtitleList h subtitles currentTime)) = h"
proof (cases "h ! subtitles = []")
  case True
  then show ?thesis by (simp add: SubtitleList_empty)
next
  case False
  with assms show ?thesis by (simp add: SubtitleList_nonempty nth_append)
qed

text \<open>An entry of type scene with a given id and timestamp, for the examples.\<close>

definition sub_at :: "string \<Rightarrow> rat \<Rightarrow> SubtitleNode" where
  "sub_at i t = \<lparr>sub_id = i, timestamp = t, endTime = None, sub_type = ''scene'', sub_text = i\<rparr>"

lemma sort_example:
  "sort_by (\<lambda>a b. timestamp a - timestamp b) [sub_at ''c'' 7, sub_at ''a'' 1, sub_at ''b'' 4]
     = [sub_at ''a'' 1, sub_at ''b'' 4, sub_at ''c'' 7]"
  by (simp add: sort_by_def sub_at_def)

text \<open>Three entries given in the order 7, 1, 4 are rendered in the order 1, 4, 7.\<close>

theorem SubtitleList_rows_sorted_witness:
  "[[sub_at ''c'' 7, sub_at ''a'' 1, sub_at ''b'' 4]] ! 0 \<noteq> [] \<and>
   (\<exists>rows. fst (SubtitleList [[sub_at ''c'' 7, sub_at ''a'' 1, sub_at ''b'' 4]] 0 5) = Rows rows \<and>
      sorted (map timestamp (map row_node rows)) \<and>
      mset (map row_node rows) = mset [sub_at ''c'' 7, sub_at ''a'' 1, sub_at ''b'' 4]) \<and>
   map timestamp (sort_by (\<lambda>a b. timestamp a - timestamp b)
      [sub_at ''c'' 7, sub_at ''a'' 1, sub_at ''b'' 4]) = [1, 4, 7]"
proof -
  have ne: "[[sub_at ''c'' 7, sub_at ''a'' 1, sub_at ''b'' 4]] ! 0 \<noteq> []" by simp
  from SubtitleList_rows_sorted [OF ne, of 5] ne show ?thesis
    by (simp add: sort_example) (simp add: sub_at_def)
qed

text \<open>After rendering them, the array received is as it was and a new array holds the
  sorted entries.\<close>

theorem SubtitleList_keeps_input_witness:
  "(0::nat) < length [[sub_at ''c'' 7, sub_at ''a'' 1, sub_at ''b'' 4]] \<and>
   snd (SubtitleList [[sub_at ''c'' 7, sub_at ''a'' 1, sub_at ''b'' 4]] 0 5) ! 0 =
     [sub_at ''c'' 7, sub_at ''a'' 1, sub_at ''b'' 4] \<and>
   snd (SubtitleList [[sub_at ''c'' 7, sub_at ''a'' 1, sub_at ''b'' 4]] 0 5) ! 1 =
     [sub_at ''a'' 1, sub_at ''b'' 4, sub_at ''c'' 7]"
proof -
  have lt: "(0::nat) < length [[sub_at ''c'' 7, sub_at ''a'' 1, sub_at ''b'' 4]]" by simp
  have "snd (SubtitleList [[sub_at ''c'' 7, sub_at ''a'' 1, sub_at ''b'' 4]] 0 5) ! 1 =
     [sub_at ''a'' 1, sub_at ''b'' 4, sub_at ''c'' 7]"
    by (simp add: SubtitleList_nonempty sort_example)
  with SubtitleList_keeps_input [OF lt, of 5] lt show ?thesis by simp
qed

section \<open>Properties of extractAudioFromVideo\<close>


text \<open>The four stages, as the specification names them, and their composition.\<close>

definition stage_decode :: "browser \<Rightarrow> File \<Rightarrow> js_error + AudioBuffer" where
  "stage_decode env videoFile = then_do (arrayBuffer videoFile) (decodeAudioData env)"

definition stage_resample :: "browser \<Rightarrow> AudioBuffer \<Rightarrow> js_error + AudioBuffer" where
  "stage_resample env audioBuffer =
     startRendering env 1 (js_times (duration audioBuffer) 16000) 16000 audioBuffer"

definition stage_encode :: "AudioBuffer \<Rightarrow> js_error + Blob" where
  "stage_encode renderedBuffer = bufferToWav renderedBuffer"

definition stage_base64 :: "Blob \<Rightarrow> js_error + string option" where
  "stage_base64 blob = Inr (Some (base64_encode (blob_bytes blob)))"

definition pipeline :: "browser \<Rightarrow> File \<Rightarrow> js_error + string option" where
  "pipeline env videoFile =
     then_do (then_do (then_do (stage_decode env videoFile) (stage_resample env)) stage_encode)
       stage_base64"

lemma base64_char_in: "base64_char n \<in> set base64_alphabet"
  unfolding base64_char_def by (rule nth_mem) (simp add: base64_alphabet_def)

lemma base64_char_not_comma: "base64_char n \<noteq> CHR '',''"
proof
  assume "base64_char n = CHR '',''"
  with base64_char_in [of n] have "CHR '','' \<in> set base64_alphabet" by simp
  then show False by (simp add: base64_alphabet_def)
qed

lemma base64_no_comma: "CHR '','' \<notin> set (base64_encode bs)"
  by (induction bs rule: base64_encode.induct)
     (simp_all add: base64_char_not_comma [symmetric])

lemma split_none: "sep \<notin> set s \<Longrightarrow> split sep s = [s]"
  by (induction s) auto

lemma split_first: "sep \<notin> set a \<Longrightarrow> split sep (a @ sep # b) = a # split sep b"
  by (induction a) auto

lemma blobToBase64_wav:
  assumes "blob_type blob = ''audio/wav''"
  shows "blobToBase64 blob = Some (base64_encode (blob_bytes blob))"
proof -
  let ?b = "base64_encode (blob_bytes blob)"
  have url: "readAsDataURL blob = ''data:audio/wav;base64'' @ CHR '','' # ?b"
    using assms by (simp add: readAsDataURL_def)
  have "CHR '','' \<notin> set ''data:audio/wav;base64''" by simp
  then have "split (CHR '','') (''data:audio/wav;base64'' @ CHR '','' # ?b) =
      ''data:audio/wav;base64'' # split (CHR '','') ?b"
    by (rule split_first)
  also have "split (CHR '','') ?b = [?b]"
    by (rule split_none) (rule base64_no_comma)
  finally have "split (CHR '','') (readAsDataURL blob) = [''data:audio/wav;base64'', ?b]"
    unfolding url .
  then show ?thesis by (simp add: blobToBase64_def array_get_def)
qed

lemma encode_then_base64:
  "then_do (bufferToWav b) (\<lambda>wavBlob. Inr (blobToBase64 wavBlob)) =
     Inr (Some (base64_encode (wav_bytes b)))"
  by (simp add: wav_bytes_props(1) then_do_def blobToBase64_wav)

lemma encode_then_stage_base64:
  "then_do (stage_encode b) stage_base64 = Inr (Some (base64_encode (wav_bytes b)))"
  by (simp add: stage_encode_def stage_base64_def wav_bytes_props(1) then_do_def)





















text \<open>
  Claim C5. \<open>extractAudioFromVideo\<close> is the composition of four stages in order, and
  nothing else: decode the bytes of the file to an AudioBuffer, render it to one channel
  at 16000 Hz in an offline context, encode the rendered buffer with \<open>bufferToWav\<close>, and
  give the base64 text of the blob, which is its data URL without the prefix.
\<close>

theorem extractAudioFromVideo_is_pipeline:
  "extractAudioFromVideo env videoFile = pipeline env videoFile"
proof (cases "arrayBuffer videoFile")
  case (Inl e)
  then show ?thesis
    by (simp add: extractAudioFromVideo_def pipeline_def stage_decode_def then_do_def)
next
  case bytes: (Inr bytes)
  show ?thesis
  proof (cases "decodeAudioData env bytes")
    case (Inl e)
    with bytes show ?thesis
      by (simp add: extractAudioFromVideo_def pipeline_def stage_decode_def then_do_def)
  next
    case decoded: (Inr audioBuffer)
    show ?thesis
    proof (cases "startRendering env 1 (js_times (duration audioBuffer) 16000) 16000 audioBuffer")
      case (Inl e)
      with bytes decoded show ?thesis
        by (simp add: extractAudioFromVideo_def pipeline_def stage_decode_def
            stage_resample_def then_do_def)
    next
      case (Inr renderedBuffer)
      have "extractAudioFromVideo env videoFile =
          then_do (bufferToWav renderedBuffer) (\<lambda>wavBlob. Inr (blobToBase64 wavBlob))"
        using bytes decoded Inr by (simp add: extractAudioFromVideo_def then_do_def)
      moreover have "pipeline env videoFile = then_do (stage_encode renderedBuffer) stage_base64"
        using bytes decoded Inr
        by (simp add: pipeline_def stage_decode_def stage_resample_def then_do_def)
      ultimately show ?thesis
        by (simp only: encode_then_base64 encode_then_stage_base64)
    qed
  qed
qed







section \<open>Properties of the Gemini service\<close>

text \<open>
  What the specification says of one invocation that makes the request \<open>req\<close> in the
  world \<open>w\<close> and then processes the response with \<open>process\<close>: the one request is added
  to the requests made, and no other. When the service throws, or the processing of its
  response does, that error is thrown, and one line is written to the console: the label
  of the function with that error. Otherwise the value is returned and nothing is written.
\<close>

definition single_shot ::
  "gemini \<Rightarrow> world \<Rightarrow> request \<Rightarrow> string \<Rightarrow> (GenerateContentResponse \<Rightarrow> js_error + 'a) \<Rightarrow>
     (js_error + 'a) \<times> world" where
  "single_shot env w req label process =
     (case then_do (generateContent env (api_calls w) req) process of
        Inl error \<Rightarrow>
          (Inl error, w\<lparr>api_calls := api_calls w @ [req],
                        console_errors := console_errors w @ [(label, error)]\<rparr>)
      | Inr v \<Rightarrow> (Inr v, w\<lparr>api_calls := api_calls w @ [req]\<rparr>))"

lemma scene_single_shot:
  "generateSceneDescription env base64Image w =
     single_shot env w (SceneRequest (clean_image base64Image)) ''Gemini API Error:''
       (\<lambda>response. if truthy_text (response_text response)
          then Inr (trim (the (response_text response)))
          else Inl (Error ''No text generated from Gemini.''))"
  by (simp add: generateSceneDescription_def generateSceneDescription_try_def
      call_generateContent_def catch_log_rethrow_def single_shot_def then_do_def Let_def
      split: sum.splits)

lemma translate_single_shot:
  "\<not> (text = [] \<or> trim text = []) \<Longrightarrow>
   translateText env text targetLanguage w =
     single_shot env w (TranslateRequest text targetLanguage) ''Gemini Translation Error:''
       (\<lambda>response. if truthy_text (response_text response)
          then Inr (trim (the (response_text response)))
          else Inl (Error ''Translation returned empty text.''))"
  by (simp add: translateText_def translateText_try_def
      call_generateContent_def catch_log_rethrow_def single_shot_def then_do_def
      split: sum.splits)

lemma batch_single_shot:
  "texts \<noteq> [] \<Longrightarrow>
   translateBatch env texts targetLanguage w =
     single_shot env w (BatchRequest texts targetLanguage) ''Batch Translation Error:''
       (\<lambda>response. if truthy_text (response_text response)
          then JSON_parse env (the (response_text response))
          else Inl (Error ''No JSON generated for translation batch.''))"
  by (simp add: translateBatch_def translateBatch_try_def
      call_generateContent_def catch_log_rethrow_def single_shot_def then_do_def
      split: sum.splits)

lemma audio_single_shot:
  "analyzeAudioDeeply env base64Audio w =
     single_shot env w (AudioRequest base64Audio) ''Gemini Audio Analysis Error:''
       (\<lambda>response. if truthy_text (response_text response)
          then JSON_parse env (the (response_text response))
          else Inl (Error ''No JSON generated.''))"
  by (simp add: analyzeAudioDeeply_def analyzeAudioDeeply_try_def
      call_generateContent_def catch_log_rethrow_def single_shot_def then_do_def
      split: sum.splits)

text \<open>
  Claim C6. Each of \<open>generateSceneDescription\<close>, \<open>translateText\<close>,
  \<open>translateBatch\<close> and \<open>analyzeAudioDeeply\<close> is single-shot on the service: it sends
  its one request to \<open>generateContent\<close>; when that call throws, when the response has no
  text, or when \<open>JSON.parse\<close> throws on the text, the function writes that very error to
  the console under its label and throws it; otherwise it returns the trimmed text or the
  parsed value and writes nothing. It never sends a second request and never returns a
  value in place of an error. The two translations send no request at all exactly when
  they have nothing to translate.
\<close>

theorem gemini_single_shot:
  "generateSceneDescription env base64Image w =
     single_shot env w (SceneRequest (clean_image base64Image)) ''Gemini API Error:''
       (\<lambda>response. if truthy_text (response_text response)
          then Inr (trim (the (response_text response)))
          else Inl (Error ''No text generated from Gemini.''))
   \<and> translateText env text targetLanguage w =
       (if text = [] \<or> trim text = [] then (Inr [], w)
        else single_shot env w (TranslateRequest text targetLanguage) ''Gemini Translation Error:''
          (\<lambda>response. if truthy_text (response_text response)
             then Inr (trim (the (response_text response)))
             else Inl (Error ''Translation returned empty text.'')))
   \<and> translateBatch env texts targetLanguage w =
       (if texts = [] then (Inr (JArray []), w)
        else single_shot env w (BatchRequest texts targetLanguage) ''Batch Translation Error:''
          (\<lambda>response. if truthy_text (response_text response)
             then JSON_parse env (the (response_text response))
             else Inl (Error ''No JSON generated for translation batch.'')))
   \<and> analyzeAudioDeeply env base64Audio w =
       single_shot env w (AudioRequest base64Audio) ''Gemini Audio Analysis Error:''
         (\<lambda>response. if truthy_text (response_text response)
            then JSON_parse env (the (response_text response))
            else Inl (Error ''No JSON generated.''))"
proof (intro conjI)
  show "generateSceneDescription env base64Image w =
     single_shot env w (SceneRequest (clean_image base64Image)) ''Gemini API Error:''
       (\<lambda>response. if truthy_text (response_text response)
          then Inr (trim (the (response_text response)))
          else Inl (Error ''No text generated from Gemini.''))"
    by (rule scene_single_shot)
  show "translateText env text targetLanguage w =
       (if text = [] \<or> trim text = [] then (Inr [], w)
        else single_shot env w (TranslateRequest text targetLanguage) ''Gemini Translation Error:''
          (\<lambda>response. if truthy_text (response_text response)
             then Inr (trim (the (response_text response)))
             else Inl (Error ''Translation returned empty text.'')))"
  proof (cases "text = [] \<or> trim text = []")
    case True
    then show ?thesis by (simp add: translateText_def)
  next
    case False
    from translate_single_shot [OF False] False show ?thesis by simp
  qed
  show "translateBatch env texts targetLanguage w =
       (if texts = [] then (Inr (JArray []), w)
        else single_shot env w (BatchRequest texts targetLanguage) ''Batch Translation Error:''
          (\<lambda>response. if truthy_text (response_text response)
             then JSON_parse env (the (response_text response))
             else Inl (Error ''No JSON generated for translation batch.'')))"
  proof (cases "texts = []")
    case True
    then show ?thesis by (simp add: translateBatch_def)
  next
    case False
    from batch_single_shot [OF False] False show ?thesis by simp
  qed
  show "analyzeAudioDeeply env base64Audio w =
       single_shot env w (AudioRequest base64Audio) ''Gemini Audio Analysis Error:''
         (\<lambda>response. if truthy_text (response_text response)
            then JSON_parse env (the (response_text response))
            else Inl (Error ''No JSON generated.''))"
    by (rule audio_single_shot)
qed

lemma trim_white_space:
  assumes "list_all is_white_space text"
  shows "trim text = []"
proof -
  from assms have "dropWhile is_white_space text = []"
    by (induction "text") simp_all
  then show ?thesis unfolding trim_def by (simp only: rev.simps dropWhile.simps)
qed

text \<open>
  Claim C8. \<open>translateText\<close> on an empty text or a text of white space only returns the
  empty text, and \<open>translateBatch\<close> on an empty array returns the empty array; in both
  cases the world is as before: no request was made, nothing was written to the console,
  and nothing is thrown.
\<close>

theorem translate_nothing_to_do:
  assumes "list_all is_white_space text"
  shows "translateText env text targetLanguage w = (Inr [], w)
       \<and> translateBatch env [] targetLanguage w = (Inr (JArray []), w)"
  using trim_white_space [OF assms] by (simp add: translateText_def translateBatch_def)

text \<open>A service that is down, a service that answers every request with the text
  \<open>no\<close>, which is not JSON, and a world in which nothing has happened yet.\<close>

definition service_down :: gemini where
  "service_down =
     \<lparr>generateContent = (\<lambda>earlier req. Inl (Thrown ''503 Service Unavailable'')),
      JSON_parse = (\<lambda>s. Inl (SyntaxError ''Unexpected end of JSON input''))\<rparr>"

definition service_garbled :: gemini where
  "service_garbled =
     \<lparr>generateContent = (\<lambda>earlier req. Inr \<lparr>response_text = Some [0x6E, 0x6F]\<rparr>),
      JSON_parse = (\<lambda>s. Inl (SyntaxError ''Unexpected token o in JSON''))\<rparr>"

definition fresh_world :: world where
  "fresh_world = \<lparr>api_calls = [], console_errors = []\<rparr>"

text \<open>A text of a space, a tab, a no-break space and an ideographic space.\<close>

theorem translate_nothing_to_do_witness:
  "list_all is_white_space [0x20, 0x9, 0xA0, 0x3000]
   \<and> translateText service_down [0x20, 0x9, 0xA0, 0x3000] Spanish fresh_world = (Inr [], fresh_world)
   \<and> translateBatch service_down [] Spanish fresh_world = (Inr (JArray []), fresh_world)"
proof -
  have ws: "list_all is_white_space [0x20, 0x9, 0xA0, 0x3000]"
    by (simp add: is_white_space_def)
  from translate_nothing_to_do [OF ws, of service_down Spanish fresh_world] ws
  show ?thesis by simp
qed

text \<open>With the service down, \<open>analyzeAudioDeeply\<close> makes its one request, writes the
  error it got and throws it. With the garbled service, \<open>translateBatch\<close> of the text
  \<open>hi\<close> makes its one request, and writes and throws the error of \<open>JSON.parse\<close>.\<close>

theorem gemini_single_shot_witness:
  "analyzeAudioDeeply service_down ''UklGRg=='' fresh_world =
     (Inl (Thrown ''503 Service Unavailable''),
      \<lparr>api_calls = [AudioRequest ''UklGRg==''],
       console_errors = [(''Gemini Audio Analysis Error:'', Thrown ''503 Service Unavailable'')]\<rparr>)
   \<and> translateBatch service_garbled [[0x68, 0x69]] Spanish fresh_world =
     (Inl (SyntaxError ''Unexpected token o in JSON''),
      \<lparr>api_calls = [BatchRequest [[0x68, 0x69]] Spanish],
       console_errors = [(''Batch Translation Error:'', SyntaxError ''Unexpected token o in JSON'')]\<rparr>)"
proof -
  from gemini_single_shot [of service_down "[]" fresh_world "[]" Spanish "[]" "''UklGRg==''"]
  have a: "analyzeAudioDeeply service_down ''UklGRg=='' fresh_world =
     (Inl (Thrown ''503 Service Unavailable''),
      \<lparr>api_calls = [AudioRequest ''UklGRg==''],
       console_errors = [(''Gemini Audio Analysis Error:'', Thrown ''503 Service Unavailable'')]\<rparr>)"
    by (simp add: single_shot_def then_do_def service_down_def fresh_world_def)
  from gemini_single_shot [of service_garbled "[]" fresh_world "[]" Spanish "[[0x68, 0x69]]" "[]"]
  have b: "translateBatch service_garbled [[0x68, 0x69]] Spanish fresh_world =
     (Inl (SyntaxError ''Unexpected token o in JSON''),
      \<lparr>api_calls = [BatchRequest [[0x68, 0x69]] Spanish],
       console_errors = [(''Batch Translation Error:'', SyntaxError ''Unexpected token o in JSON'')]\<rparr>)"
    by (simp add: single_shot_def then_do_def service_garbled_def fresh_world_def truthy_text_def)
  from a b show ?thesis by simp
qed

end
